theory Spec2Isabelle
  imports Main "HOL-Library.Multiset"
begin

section \<open>Data model (src/types.ts)\<close>

text \<open>
  A \<open>Message\<close> as the interface declares it. The field \<open>id\<close> is written \<open>id'\<close>
  (\<open>id\<close> is the identity function of HOL). Optional fields are options; the numbers that
  the program uses are row identifiers, modelled as integers.
\<close>

datatype role = User | Assistant

record message =
  id' :: int
  thread_id :: int
  role :: role
  content :: string
  images :: "string list option"
  created_at :: string
  reply_to_id :: "int option"
  model :: "string option"

text \<open>
  A \<open>MessageNode\<close> is a message object with a mutable array of references to its child
  nodes. The objects that \<open>buildMessageTree\<close> allocates are held in \<open>messageMap\<close>, one
  live object per key (a later \<open>set\<close> under the same key replaces the earlier object, which
  nothing refers to any more), so the object stored under key \<open>k\<close> is referred to as
  \<open>MapNode k\<close>; the one further object is the streaming node of the \<open>ChatArea\<close>.
\<close>

datatype node_ref = MapNode int | StreamingNode

record message_node = message +
  children :: "node_ref list"

type_synonym heap = "node_ref \<rightharpoonup> message_node"

record tree =
  heap :: heap
  roots :: "node_ref list"

text \<open>
  A Javascript condition on an optional number (\<open>m.reply_to_id && ...\<close>,
  \<open>!msg.reply_to_id\<close>, \<open>activeThreadId && ...\<close>) holds when the number is present and
  is not 0.
\<close>

fun truthy :: "int option \<Rightarrow> bool" where
  "truthy None = False"
| "truthy (Some n) = (n \<noteq> 0)"

section \<open>The tree builder (buildMessageTree of the ChatArea component)\<close>

text \<open>The callback of \<open>messages.map\<close>: the reply-link heuristic for the message at \<open>index\<close>.\<close>

definition patch :: "message list \<Rightarrow> nat \<Rightarrow> message \<Rightarrow> message" where
  "patch messages index m =
     (let msg = m in
      if role msg = Assistant \<and> \<not> truthy (reply_to_id msg) \<and> index > 0 then
        (let prev = messages ! (index - 1) in
         if role prev = User then msg\<lparr>reply_to_id := Some (id' prev)\<rparr> else msg)
      else msg)"

definition patchedMessages :: "message list \<Rightarrow> message list" where
  "patchedMessages messages = map (\<lambda>(index, m). patch messages index m) (enumerate 0 messages)"

text \<open>The object \<open>{ ...m, children: [] }\<close>.\<close>

definition new_node :: "message \<Rightarrow> message_node" where
  "new_node m = message.extend m (message_node.fields [])"

text \<open>First \<open>forEach\<close>: \<open>messageMap.set(m.id, { ...m, children: [] })\<close>.\<close>

fun init_map :: "message list \<Rightarrow> heap \<Rightarrow> heap" where
  "init_map [] messageMap = messageMap"
| "init_map (m # ms) messageMap = init_map ms (messageMap(MapNode (id' m) \<mapsto> new_node m))"

text \<open>
  Second \<open>forEach\<close>. \<open>messageMap.get(k)!\<close> asserts that the key is present; a missing key
  would leave \<open>undefined\<close> where an object is used, which is the result \<open>None\<close> here.
\<close>

definition link_step :: "message \<Rightarrow> tree \<Rightarrow> tree option" where
  "link_step m t =
     (case heap t (MapNode (id' m)) of
        None \<Rightarrow> None
      | Some _ \<Rightarrow>
          (let node = MapNode (id' m) in
           if truthy (reply_to_id m) \<and> heap t (MapNode (the (reply_to_id m))) \<noteq> None then
             (case heap t (MapNode (the (reply_to_id m))) of
                None \<Rightarrow> None
              | Some parent \<Rightarrow>
                  Some (t\<lparr>heap := (heap t)(MapNode (the (reply_to_id m)) \<mapsto>
                                     parent\<lparr>children := children parent @ [node]\<rparr>)\<rparr>))
           else Some (t\<lparr>roots := roots t @ [node]\<rparr>)))"

fun link_all :: "message list \<Rightarrow> tree \<Rightarrow> tree option" where
  "link_all [] t = Some t"
| "link_all (m # ms) t = (case link_step m t of None \<Rightarrow> None | Some t' \<Rightarrow> link_all ms t')"

definition buildMessageTree :: "message list \<Rightarrow> tree option" where
  "buildMessageTree messages =
     (let patched = patchedMessages messages;
          messageMap = init_map patched Map.empty
      in link_all patched \<lparr>heap = messageMap, roots = []\<rparr>)"

section \<open>The streaming graft (the messageTree memo of ChatArea)\<close>

text \<open>
  \<open>attachToNode\<close> searches the forest depth first for the first node whose \<open>id\<close> is
  \<open>attachToId\<close> and pushes the streaming node onto its children. On a cyclic object graph
  the recursion does not return (the engine ends it with a stack overflow); not returning
  normally is the value \<open>None\<close>, also for a reference without an object, which the
  builder never produces.
\<close>

partial_function (option) attachToNode :: "int \<Rightarrow> heap \<Rightarrow> node_ref list \<Rightarrow> (bool \<times> heap) option" where
  "attachToNode attachToId h nodes =
     (case nodes of
        [] \<Rightarrow> Some (False, h)
      | node # rest \<Rightarrow>
          (case h node of
             None \<Rightarrow> None
           | Some n \<Rightarrow>
               if id' n = attachToId then
                 Some (True, h(node \<mapsto> n\<lparr>children := children n @ [StreamingNode]\<rparr>))
               else
                 Option.bind (attachToNode attachToId h (children n))
                   (\<lambda>(found, h'). if found then Some (True, h')
                                  else attachToNode attachToId h' rest)))"

text \<open>The streaming node; \<open>now\<close> is the time stamp \<open>new Date().toISOString()\<close>.\<close>

definition streamingMsg :: "string \<Rightarrow> string \<Rightarrow> message_node" where
  "streamingMsg streamingContent now =
     \<lparr>id' = - 1, thread_id = - 1, role = Assistant, content = streamingContent,
      images = None, created_at = now, reply_to_id = None, model = None, children = []\<rparr>"

definition messageTree :: "message list \<Rightarrow> bool \<Rightarrow> string \<Rightarrow> string \<Rightarrow> tree option" where
  "messageTree messages isStreaming streamingContent now =
     (case buildMessageTree messages of
        None \<Rightarrow> None
      | Some tree \<Rightarrow>
          if isStreaming then
            (let h = (heap tree)(StreamingNode \<mapsto> streamingMsg streamingContent now);
                 lastMessage = (if messages = [] then None else Some (last messages))
             in if lastMessage \<noteq> None \<and> truthy (reply_to_id (the lastMessage)) then
                  (let attachToId = id' (the lastMessage) in
                   case attachToNode attachToId h (roots tree) of
                     None \<Rightarrow> None
                   | Some (found, h') \<Rightarrow>
                       if \<not> found then Some \<lparr>heap = h', roots = roots tree @ [StreamingNode]\<rparr>
                       else Some \<lparr>heap = h', roots = roots tree\<rparr>)
                else Some \<lparr>heap = h, roots = roots tree @ [StreamingNode]\<rparr>)
          else Some tree)"

section \<open>The forest as a relation and as a traversal\<close>

text \<open>The children array of the object a reference points to.\<close>

definition child_refs :: "heap \<Rightarrow> node_ref \<Rightarrow> node_ref list" where
  "child_refs h r = (case h r of None \<Rightarrow> [] | Some n \<Rightarrow> children n)"

text \<open>The parent/child relation of the heap, and the nodes of the forest under the roots.\<close>

definition child_rel :: "heap \<Rightarrow> (node_ref \<times> node_ref) set" where
  "child_rel h = {(p, c). c \<in> set (child_refs h p)}"

definition forest_nodes :: "tree \<Rightarrow> node_ref set" where
  "forest_nodes t = (child_rel (heap t))\<^sup>* `` set (roots t)"

definition forest_rel :: "tree \<Rightarrow> (node_ref \<times> node_ref) set" where
  "forest_rel t = {(p, c). p \<in> forest_nodes t \<and> (p, c) \<in> child_rel (heap t)}"

text \<open>
  The nodes in the order in which ChatArea and ThreadItem render them (with no thread
  collapsed): each root, followed by the rendering of its children. A forest with a
  reachable cycle has no finite rendering.
\<close>

inductive rendering :: "heap \<Rightarrow> node_ref list \<Rightarrow> node_ref list \<Rightarrow> bool" where
  rendering_Nil: "rendering h [] []"
| rendering_Cons: "h r = Some n \<Longrightarrow> rendering h (children n) xs \<Longrightarrow> rendering h rs ys \<Longrightarrow>
     rendering h (r # rs) (r # xs @ ys)"

code_pred rendering .

section \<open>Test data\<close>

text \<open>A message with the given id, role and stored \<open>reply_to_id\<close>; the other fields are empty.\<close>

definition mk_message :: "int \<Rightarrow> role \<Rightarrow> int option \<Rightarrow> message" where
  "mk_message i r rp =
     \<lparr>id' = i, thread_id = 1, role = r, content = [], images = None,
      created_at = [], reply_to_id = rp, model = None\<rparr>"

text \<open>A message with the given id, role, content and time stamp \<open>created_at\<close>.\<close>

definition mk_stamped :: "int \<Rightarrow> role \<Rightarrow> string \<Rightarrow> string \<Rightarrow> message" where
  "mk_stamped i r c t =
     \<lparr>id' = i, thread_id = 1, role = r, content = c, images = None,
      created_at = t, reply_to_id = None, model = None\<rparr>"

text \<open>
  The time values \<open>new Date(s).getTime()\<close> of the three time stamps that the examples
  use (milliseconds since 1970-01-01T00:00:00Z); for the string \<open>not a date\<close>, which the
  examples use as well, the time value is NaN, written \<open>None\<close>. No example applies this
  function to another string.
\<close>

definition getTime_examples :: "string \<Rightarrow> int option" where
  "getTime_examples s =
     (if s = ''2024-01-01T00:00:00.000Z'' then Some 1704067200000
      else if s = ''2024-01-02T00:00:00.000Z'' then Some 1704153600000
      else if s = ''2024-01-03T00:00:00.000Z'' then Some 1704240000000
      else None)"

section \<open>The context assembler (handleNewChat of the App component)\<close>

text \<open>
  A \<open>Thread\<close> (src/types.ts); its \<open>id\<close> and \<open>created_at\<close> are written \<open>thr_id\<close> and
  \<open>thr_created_at\<close>, since a message has fields of these names too.
\<close>

record thread =
  thr_id :: int
  title :: string
  thr_created_at :: string
  system_prompt :: "string option"
  is_archived :: bool

text \<open>\<open>xs.slice(-n)\<close>: the last \<open>n\<close> elements, all of them when there are fewer.\<close>

definition slice_last :: "nat \<Rightarrow> 'a list \<Rightarrow> 'a list" where
  "slice_last n xs = drop (length xs - n) xs"

text \<open>
  The loop over \<open>selectedContextThreadIds\<close>. The backend call
  \<open>invoke("get_messages", { threadId })\<close> is the parameter \<open>get_messages\<close>; it yields
  \<open>None\<close> when the call rejects. The inner \<open>try\<close>/\<open>catch\<close> logs a warning and goes on
  with the next thread.
\<close>

fun collect_selected :: "(int \<Rightarrow> message list option) \<Rightarrow> int list \<Rightarrow> message list \<Rightarrow> message list" where
  "collect_selected get_messages [] contextMessages = contextMessages"
| "collect_selected get_messages (threadId # rest) contextMessages =
     (case get_messages threadId of
        Some msgs \<Rightarrow> collect_selected get_messages rest (contextMessages @ slice_last 5 msgs)
      | None \<Rightarrow> collect_selected get_messages rest contextMessages)"

text \<open>
  The \<open>if\<close>/\<open>else if\<close> chain that chooses \<open>contextMessages\<close>. The result \<open>None\<close> is an
  exception that leaves the chain (only the fetch of the first thread can raise one); the
  outer \<open>catch\<close> handles it.
\<close>

definition select_context ::
  "(int \<Rightarrow> message list option) \<Rightarrow> int list \<Rightarrow> int option \<Rightarrow> message list \<Rightarrow> thread list
   \<Rightarrow> message list option" where
  "select_context get_messages selectedContextThreadIds activeThreadId messages threads =
     (if length selectedContextThreadIds > 0 then
        Some (collect_selected get_messages selectedContextThreadIds [])
      else if truthy activeThreadId \<and> length messages > 0 then Some messages
      else if length threads > 0 then get_messages (thr_id (threads ! 0))
      else Some [])"

text \<open>
  The comparator \<open>(a, b) => new Date(a.created_at).getTime() - new Date(b.created_at).getTime()\<close>.
  The parameter \<open>getTime\<close> stands for \<open>new Date(created_at).getTime()\<close>: the time value
  in milliseconds, or NaN, written \<open>None\<close>, for a time stamp that does not parse. A
  difference with NaN is NaN.
\<close>

definition compare_created :: "(string \<Rightarrow> int option) \<Rightarrow> message \<Rightarrow> message \<Rightarrow> int option" where
  "compare_created getTime a b =
     (case getTime (created_at a) of
        None \<Rightarrow> None
      | Some ta \<Rightarrow> (case getTime (created_at b) of None \<Rightarrow> None | Some tb \<Rightarrow> Some (ta - tb)))"

text \<open>
  \<open>Array.prototype.sort\<close> with a comparator. The language reads a comparator result NaN
  as 0 (\<open>SortCompare\<close>) and requires a stable sort. It fixes the resulting order when the
  comparator is consistent, as a difference of time values that all parse is; with a NaN
  among the time values the comparator is not consistent and the language leaves the
  order to the procedure of the engine. The procedure of the model is the stable insertion
  sort.
\<close>

definition SortCompare :: "('a \<Rightarrow> 'a \<Rightarrow> int option) \<Rightarrow> 'a \<Rightarrow> 'a \<Rightarrow> int" where
  "SortCompare comparefn x y = (case comparefn x y of None \<Rightarrow> 0 | Some v \<Rightarrow> v)"

fun insert_sorted :: "('a \<Rightarrow> 'a \<Rightarrow> int) \<Rightarrow> 'a \<Rightarrow> 'a list \<Rightarrow> 'a list" where
  "insert_sorted cmp x [] = [x]"
| "insert_sorted cmp x (y # ys) = (if cmp x y \<le> 0 then x # y # ys else y # insert_sorted cmp x ys)"

definition array_sort :: "('a \<Rightarrow> 'a \<Rightarrow> int option) \<Rightarrow> 'a list \<Rightarrow> 'a list" where
  "array_sort comparefn xs = foldr (insert_sorted (SortCompare comparefn)) xs []"

text \<open>The sort of \<open>contextMessages\<close> by creation time and the cut to the last 20.\<close>

definition recent_messages :: "(string \<Rightarrow> int option) \<Rightarrow> message list \<Rightarrow> message list" where
  "recent_messages getTime contextMessages =
     slice_last 20 (array_sort (compare_created getTime) contextMessages)"

text \<open>
  Ascending order by creation time: a message never comes before one with a smaller time
  value. The comparison is \<open><=\<close> on the numbers of the program, which is false when one of
  them is NaN.
\<close>

definition ascending_by_created :: "(string \<Rightarrow> int option) \<Rightarrow> message list \<Rightarrow> bool" where
  "ascending_by_created getTime xs =
     sorted_wrt (\<lambda>a b. case getTime (created_at a) of
                          None \<Rightarrow> False
                        | Some ta \<Rightarrow> (case getTime (created_at b) of None \<Rightarrow> False | Some tb \<Rightarrow> ta \<le> tb)) xs"

fun toUpperCase :: "role \<Rightarrow> string" where
  "toUpperCase User = ''USER''"
| "toUpperCase Assistant = ''ASSISTANT''"

fun join :: "string \<Rightarrow> string list \<Rightarrow> string" where
  "join sep [] = []"
| "join sep [x] = x"
| "join sep (x # y # ys) = x @ sep @ join sep (y # ys)"

definition newline :: string where
  "newline = [CHR 0x0A]"

definition transcript_line :: "message \<Rightarrow> string" where
  "transcript_line m = toUpperCase (role m) @ '': '' @ content m"

definition contextStr :: "(string \<Rightarrow> int option) \<Rightarrow> message list \<Rightarrow> string" where
  "contextStr getTime contextMessages =
     join newline (map transcript_line (recent_messages getTime contextMessages))"

definition with_context :: "string option \<Rightarrow> string \<Rightarrow> string" where
  "with_context systemPrompt ctx =
     (case systemPrompt of None \<Rightarrow> [] | Some s \<Rightarrow> s) @ newline @ newline @
     ''[CONTEXT FROM PREVIOUS SESSION]'' @ newline @ ctx @ newline @ ''[END CONTEXT]'' @ newline"

text \<open>
  The system prompt that \<open>handleNewChat\<close> passes to \<open>create_thread\<close>; \<open>systemPrompt\<close> is
  the prompt of the selected chat mode (absent when no mode matches).
\<close>

definition newChatSystemPrompt ::
  "(string \<Rightarrow> int option) \<Rightarrow> (int \<Rightarrow> message list option) \<Rightarrow> bool \<Rightarrow> int list \<Rightarrow> int option
   \<Rightarrow> message list \<Rightarrow> thread list \<Rightarrow> string option \<Rightarrow> string option" where
  "newChatSystemPrompt getTime get_messages smartContextEnabled selectedContextThreadIds
       activeThreadId messages threads systemPrompt =
     (if smartContextEnabled then
        (case select_context get_messages selectedContextThreadIds activeThreadId messages threads of
           None \<Rightarrow> systemPrompt
         | Some contextMessages \<Rightarrow>
             if length contextMessages > 0
             then Some (with_context systemPrompt (contextStr getTime contextMessages))
             else systemPrompt)
      else systemPrompt)"

section \<open>The stream reconciler (state and handlers of the App component)\<close>

text \<open>The part of the component state that the generation cycle reads and writes.\<close>

record app_state =
  st_messages :: "message list"
  st_streamingContent :: string
  st_isStreaming :: bool
  st_activeThreadId :: "int option"
  st_isTauriEnv :: bool

text \<open>The backend commands a handler invokes.\<close>

datatype command =
    Send_message int string "string list option" "string list option" "int option"
  | Regenerate_response int
  | Get_messages int

text \<open>
  What happens to the component: a handler is called, the awaited backend call of a handler
  rejects, or the backend emits an event.
\<close>

datatype event =
    SendMessage string "string list option" "string list option" "int option" int string
  | SendRejected
  | Retry
  | RetryRejected
  | StreamResponse string
  | StreamDone

text \<open>
  \<open>handleSendMessage\<close> up to its \<open>await\<close>; \<open>content'\<close> is its parameter \<open>content\<close>,
  \<open>tempId\<close> and \<open>now\<close> are \<open>Date.now()\<close> and \<open>new Date().toISOString()\<close>. In browser
  mode (\<open>isTauriEnv\<close> false) no backend call is made; the canned reply that a timer adds
  there is left out, and so is the model name among the arguments of the backend call.
\<close>

definition handleSendMessage ::
  "app_state \<Rightarrow> string \<Rightarrow> string list option \<Rightarrow> string list option \<Rightarrow> int option \<Rightarrow> int \<Rightarrow> string
   \<Rightarrow> app_state \<times> command list" where
  "handleSendMessage s content' images' pdfs replyToId tempId now =
     (if \<not> truthy (st_activeThreadId s) then (s, [])
      else
        (let tempMsg = \<lparr>id' = tempId, thread_id = the (st_activeThreadId s), role = User,
                         content = content', images = images', created_at = now,
                         reply_to_id = replyToId, model = None\<rparr>;
             s' = s\<lparr>st_messages := st_messages s @ [tempMsg], st_isStreaming := True,
                     st_streamingContent := []\<rparr>
         in if \<not> st_isTauriEnv s then (s', [])
            else (s', [Send_message (the (st_activeThreadId s)) content' images' pdfs replyToId])))"

text \<open>The \<open>catch\<close> of \<open>handleSendMessage\<close> and of \<open>handleRetry\<close>: log, \<open>setIsStreaming(false)\<close>.\<close>

definition handleSendMessage_catch :: "app_state \<Rightarrow> app_state \<times> command list" where
  "handleSendMessage_catch s = (s\<lparr>st_isStreaming := False\<rparr>, [])"

definition handleRetry :: "app_state \<Rightarrow> app_state \<times> command list" where
  "handleRetry s =
     (if \<not> truthy (st_activeThreadId s) \<or> st_isStreaming s then (s, [])
      else
        (s\<lparr>st_isStreaming := True, st_streamingContent := [],
           st_messages := (let prev = st_messages s in
                           if length prev > 0 \<and> role (prev ! (length prev - 1)) = Assistant
                           then take (length prev - 1) prev else prev)\<rparr>,
         [Regenerate_response (the (st_activeThreadId s))]))"

definition handleRetry_catch :: "app_state \<Rightarrow> app_state \<times> command list" where
  "handleRetry_catch s = (s\<lparr>st_isStreaming := False\<rparr>, [])"

text \<open>
  The listeners of the events \<open>stream-response\<close> and \<open>stream-done\<close>; the latter asks
  for the messages of the active thread again (\<open>loadMessages\<close>).
\<close>

definition on_stream_response :: "app_state \<Rightarrow> string \<Rightarrow> app_state \<times> command list" where
  "on_stream_response s payload = (s\<lparr>st_streamingContent := st_streamingContent s @ payload\<rparr>, [])"

definition on_stream_done :: "app_state \<Rightarrow> app_state \<times> command list" where
  "on_stream_done s =
     (s\<lparr>st_isStreaming := False, st_streamingContent := []\<rparr>,
      if truthy (st_activeThreadId s) then [Get_messages (the (st_activeThreadId s))] else [])"

fun step :: "app_state \<Rightarrow> event \<Rightarrow> app_state \<times> command list" where
  "step s (SendMessage content' images' pdfs replyToId tempId now) =
     handleSendMessage s content' images' pdfs replyToId tempId now"
| "step s SendRejected = handleSendMessage_catch s"
| "step s Retry = handleRetry s"
| "step s RetryRejected = handleRetry_catch s"
| "step s (StreamResponse payload) = on_stream_response s payload"
| "step s StreamDone = on_stream_done s"

text \<open>A sequence of events, with the backend commands issued on the way.\<close>

fun run :: "app_state \<Rightarrow> event list \<Rightarrow> app_state \<times> command list" where
  "run s [] = (s, [])"
| "run s (e # es) =
     (case step s e of (s', cs) \<Rightarrow> (case run s' es of (s'', cs') \<Rightarrow> (s'', cs @ cs')))"

section \<open>Observations on a built tree\<close>

text \<open>The roots and the children arrays of a result of the builder (empty when it has none).\<close>

definition roots_of :: "tree option \<Rightarrow> node_ref list" where
  "roots_of t = (case t of None \<Rightarrow> [] | Some t' \<Rightarrow> roots t')"

definition children_of :: "tree option \<Rightarrow> node_ref \<Rightarrow> node_ref list" where
  "children_of t r = (case t of None \<Rightarrow> [] | Some t' \<Rightarrow> child_refs (heap t') r)"

section \<open>Auxiliary notions for the proofs\<close>

text \<open>
  The working reply links of an input: the pairs (parent, child) of the patched messages
  whose \<open>reply_to_id\<close> is set and names a loaded message. These are the links that the
  second loop of the builder turns into entries of children arrays.
\<close>

definition reply_links :: "message list \<Rightarrow> (node_ref \<times> node_ref) set" where
  "reply_links messages =
     set (map (\<lambda>m. (MapNode (the (reply_to_id m)), MapNode (id' m)))
            (filter (\<lambda>m. truthy (reply_to_id m) \<and> the (reply_to_id m) \<in> set (map id' messages))
               (patchedMessages messages)))"

text \<open>
  The condition of the second loop for a message \<open>m\<close> over a map \<open>h\<close>, and what the loop
  appends over a list of messages: to the children array of the node \<open>r\<close>, and to the roots.
\<close>

definition linked :: "heap \<Rightarrow> message \<Rightarrow> bool" where
  "linked h m = (truthy (reply_to_id m) \<and> h (MapNode (the (reply_to_id m))) \<noteq> None)"

definition kids :: "heap \<Rightarrow> message list \<Rightarrow> node_ref \<Rightarrow> node_ref list" where
  "kids h ms r = map (\<lambda>m. MapNode (id' m)) (filter (\<lambda>m. linked h m \<and> MapNode (the (reply_to_id m)) = r) ms)"

definition tops :: "heap \<Rightarrow> message list \<Rightarrow> node_ref list" where
  "tops h ms = map (\<lambda>m. MapNode (id' m)) (filter (\<lambda>m. \<not> linked h m) ms)"

definition add_kids :: "heap \<Rightarrow> (node_ref \<Rightarrow> node_ref list) \<Rightarrow> heap" where
  "add_kids h f = (\<lambda>r. map_option (\<lambda>n. n\<lparr>children := children n @ f r\<rparr>) (h r))"

text \<open>
  The map after the first loop, and the result of the builder in closed form (lemma
  \<open>build_built\<close> below shows that \<open>buildMessageTree\<close> returns it).
\<close>

definition H0 :: "message list \<Rightarrow> heap" where
  "H0 ms = init_map (patchedMessages ms) Map.empty"

definition built :: "message list \<Rightarrow> tree" where
  "built ms = \<lparr>heap = add_kids (H0 ms) (kids (H0 ms) (patchedMessages ms)),
               roots = tops (H0 ms) (patchedMessages ms)\<rparr>"

text \<open>
  The shape of a forest: no reference occurs twice among the roots and the children
  arrays, and every reference points to an object.
\<close>

definition well_shaped :: "tree \<Rightarrow> bool" where
  "well_shaped t \<longleftrightarrow>
     distinct (roots t) \<and>
     (\<forall>p. distinct (child_refs (heap t) p)) \<and>
     (\<forall>p p' c. c \<in> set (child_refs (heap t) p) \<longrightarrow> c \<in> set (child_refs (heap t) p') \<longrightarrow> p = p') \<and>
     (\<forall>p c. c \<in> set (child_refs (heap t) p) \<longrightarrow> c \<notin> set (roots t)) \<and>
     set (roots t) \<subseteq> dom (heap t) \<and>
     (\<forall>p. set (child_refs (heap t) p) \<subseteq> dom (heap t))"

text \<open>
  Roots whose subtrees are free of cycles and pairwise disjoint: the invariant of the
  lists that a rendering walks through.
\<close>

definition spread :: "heap \<Rightarrow> node_ref list \<Rightarrow> bool" where
  "spread h rs \<longleftrightarrow>
     distinct rs \<and>
     (\<forall>a\<in>set rs. (a, a) \<notin> (child_rel h)\<^sup>+ \<and>
        (\<forall>b\<in>set rs. a \<noteq> b \<longrightarrow> (child_rel h)\<^sup>* `` {a} \<inter> (child_rel h)\<^sup>* `` {b} = {}))"

text \<open>
  The push of the streaming node onto the children of \<open>r\<close>, the result of the search of
  \<open>attachToNode\<close> for the node \<open>r0\<close> below the nodes \<open>rs\<close>, and the result of the memo
  while streaming in closed form (lemma \<open>messageTree_closed\<close> below).
\<close>

definition push_streaming :: "heap \<Rightarrow> node_ref \<Rightarrow> heap" where
  "push_streaming h r = (case h r of None \<Rightarrow> h | Some n \<Rightarrow> h(r \<mapsto> n\<lparr>children := children n @ [StreamingNode]\<rparr>))"

definition attach_result :: "heap \<Rightarrow> node_ref \<Rightarrow> node_ref list \<Rightarrow> bool \<times> heap" where
  "attach_result h r0 rs =
     (if r0 \<in> (child_rel h)\<^sup>* `` set rs then (True, push_streaming h r0) else (False, h))"

definition attached :: "message list \<Rightarrow> bool" where
  "attached ms \<longleftrightarrow> ms \<noteq> [] \<and> truthy (reply_to_id (last ms)) \<and> MapNode (id' (last ms)) \<in> forest_nodes (built ms)"

definition grafted :: "message list \<Rightarrow> string \<Rightarrow> string \<Rightarrow> tree" where
  "grafted ms c now =
     (let b = built ms; h = (heap b)(StreamingNode \<mapsto> streamingMsg c now) in
      if ms \<noteq> [] \<and> truthy (reply_to_id (last ms)) \<and> MapNode (id' (last ms)) \<in> forest_nodes b
      then \<lparr>heap = push_streaming h (MapNode (id' (last ms))), roots = roots b\<rparr>
      else \<lparr>heap = h, roots = roots b @ [StreamingNode]\<rparr>)"

section \<open>Properties of the tree builder\<close>

lemma linked_add_kids [simp]: "linked (add_kids h f) m = linked h m"
  by (simp add: linked_def add_kids_def)

lemma link_step_closed:
  assumes "heap t (MapNode (id' m)) \<noteq> None"
  shows "link_step m t = Some \<lparr>heap = add_kids (heap t) (kids (heap t) [m]), roots = roots t @ tops (heap t) [m]\<rparr>"
proof (cases "linked (heap t) m")
  case True
  then obtain p where p: "heap t (MapNode (the (reply_to_id m))) = Some p"
    by (auto simp: linked_def)
  have "(heap t)(MapNode (the (reply_to_id m)) \<mapsto> p\<lparr>children := children p @ [MapNode (id' m)]\<rparr>)
        = add_kids (heap t) (kids (heap t) [m])"
    using True p by (auto simp: add_kids_def kids_def fun_eq_iff map_option_case split: option.splits)
  then show ?thesis
    using assms True p by (auto simp: link_step_def linked_def tops_def Let_def)
next
  case False
  have "add_kids (heap t) (kids (heap t) [m]) = heap t"
    using False by (auto simp: add_kids_def kids_def fun_eq_iff map_option_case split: option.splits)
  then show ?thesis
    using assms False by (auto simp: link_step_def linked_def tops_def Let_def)
qed

lemma add_kids_add_kids: "add_kids (add_kids h f) g = add_kids h (\<lambda>r. f r @ g r)"
  by (auto simp: add_kids_def fun_eq_iff map_option_case split: option.splits)

lemma kids_add_kids [simp]: "kids (add_kids h f) ms = kids h ms"
  by (simp add: kids_def fun_eq_iff)

lemma tops_add_kids [simp]: "tops (add_kids h f) ms = tops h ms"
  by (simp add: tops_def)

lemma add_kids_None [simp]: "add_kids h f r = None \<longleftrightarrow> h r = None"
  by (simp add: add_kids_def)

lemma link_all_closed:
  "\<forall>m\<in>set ms. heap t (MapNode (id' m)) \<noteq> None \<Longrightarrow>
   link_all ms t = Some \<lparr>heap = add_kids (heap t) (kids (heap t) ms), roots = roots t @ tops (heap t) ms\<rparr>"
proof (induction ms arbitrary: t)
  case Nil
  have "add_kids (heap t) (kids (heap t) []) = heap t"
    by (auto simp: add_kids_def kids_def fun_eq_iff map_option_case split: option.splits)
  then show ?case by (simp add: tops_def)
next
  case (Cons m ms)
  let ?t' = "\<lparr>heap = add_kids (heap t) (kids (heap t) [m]), roots = roots t @ tops (heap t) [m]\<rparr>"
  have s: "link_step m t = Some ?t'" using Cons.prems by (simp add: link_step_closed)
  have "\<forall>x\<in>set ms. heap ?t' (MapNode (id' x)) \<noteq> None" using Cons.prems by simp
  from Cons.IH[OF this] have "link_all ms ?t' = Some \<lparr>heap = add_kids (heap ?t') (kids (heap ?t') ms), roots = roots ?t' @ tops (heap ?t') ms\<rparr>" .
  moreover have "kids (heap t) (m # ms) = (\<lambda>r. kids (heap t) [m] r @ kids (heap t) ms r)"
    by (auto simp: kids_def fun_eq_iff)
  moreover have "tops (heap t) (m # ms) = tops (heap t) [m] @ tops (heap t) ms"
    by (auto simp: tops_def)
  ultimately show ?case using s by (simp add: add_kids_add_kids)
qed

lemma length_patched [simp]: "length (patchedMessages ms) = length ms"
  by (simp add: patchedMessages_def)

lemma nth_patched: "i < length ms \<Longrightarrow> patchedMessages ms ! i = patch ms i (ms ! i)"
  by (simp add: patchedMessages_def nth_enumerate_eq)

lemma id_patch [simp]: "id' (patch ms i m) = id' m"
  by (simp add: patch_def Let_def)

lemma role_patch [simp]: "role (patch ms i m) = role m"
  by (simp add: patch_def Let_def)

lemma map_id_patched [simp]: "map id' (patchedMessages ms) = map id' ms"
  by (rule nth_equalityI) (simp_all add: nth_patched)

lemma ids_patched [simp]: "id' ` set (patchedMessages ms) = id' ` set ms"
  using map_id_patched[of ms] by (metis set_map)

lemma id_new_node [simp]: "id' (new_node m) = id' m"
  by (simp add: new_node_def message.defs message_node.defs)

lemma children_new_node [simp]: "children (new_node m) = []"
  by (simp add: new_node_def message.defs message_node.defs)

lemma init_map_None: "init_map ms h r = None \<longleftrightarrow> h r = None \<and> r \<notin> MapNode ` id' ` set ms"
  by (induction ms arbitrary: h) auto

lemma init_map_Some:
  "init_map ms h r = Some n \<Longrightarrow> h r = Some n \<or> (\<exists>m\<in>set ms. n = new_node m \<and> r = MapNode (id' m))"
proof (induction ms arbitrary: h)
  case Nil
  then show ?case by simp
next
  case (Cons a ms)
  from Cons.prems have "init_map ms (h(MapNode (id' a) \<mapsto> new_node a)) r = Some n"
    by simp
  from Cons.IH[OF this]
  show ?case by (auto split: if_splits)
qed

lemma H0_None: "H0 ms r = None \<longleftrightarrow> r \<notin> MapNode ` id' ` set ms"
  by (simp add: H0_def init_map_None)

lemma H0_Some: "H0 ms r = Some n \<Longrightarrow> children n = [] \<and> r = MapNode (id' n)"
  using init_map_Some[of "patchedMessages ms" Map.empty r n] by (auto simp: H0_def)

lemma linked_H0: "linked (H0 ms) m \<longleftrightarrow> truthy (reply_to_id m) \<and> the (reply_to_id m) \<in> id' ` set ms"
  by (auto simp: linked_def H0_None)

lemma build_closed:
  "buildMessageTree ms = Some \<lparr>heap = add_kids (H0 ms) (kids (H0 ms) (patchedMessages ms)),
                               roots = tops (H0 ms) (patchedMessages ms)\<rparr>"
proof -
  have "\<forall>m\<in>set (patchedMessages ms). H0 ms (MapNode (id' m)) \<noteq> None"
  proof
    fix m assume "m \<in> set (patchedMessages ms)"
    then have "id' m \<in> id' ` set (patchedMessages ms)" by (rule imageI)
    then show "H0 ms (MapNode (id' m)) \<noteq> None" by (simp add: H0_None)
  qed
  then show ?thesis
    using link_all_closed[of "patchedMessages ms" "\<lparr>heap = H0 ms, roots = []\<rparr>"]
    by (simp add: buildMessageTree_def Let_def H0_def)
qed

lemma child_refs_build:
  "child_refs (add_kids (H0 ms) (kids (H0 ms) (patchedMessages ms))) r = kids (H0 ms) (patchedMessages ms) r"
proof (cases "H0 ms r")
  case None
  then have "kids (H0 ms) (patchedMessages ms) r = []"
    by (auto simp: kids_def linked_def filter_empty_conv)
  with None show ?thesis by (simp add: child_refs_def add_kids_def)
next
  case (Some n)
  then show ?thesis using H0_Some[OF Some] by (simp add: child_refs_def add_kids_def)
qed

lemma no_cycle_below_roots:
  assumes U: "\<And>p p' c. (p, c) \<in> R \<Longrightarrow> (p', c) \<in> R \<Longrightarrow> p = p'"
    and N: "\<And>p c. (p, c) \<in> R \<Longrightarrow> c \<notin> S"
    and x: "x \<in> R\<^sup>* `` S"
  shows "(x, x) \<notin> R\<^sup>+"
proof -
  from x obtain r where r: "r \<in> S" and rx: "(r, x) \<in> R\<^sup>*" by auto
  from rx show ?thesis
  proof (induction rule: rtrancl_induct)
    case base
    show ?case
    proof
      assume "(r, r) \<in> R\<^sup>+"
      then obtain z where "(z, r) \<in> R" by (auto dest: tranclD2)
      with N r show False by blast
    qed
  next
    case (step y z)
    show ?case
    proof
      assume "(z, z) \<in> R\<^sup>+"
      then obtain w where w: "(z, w) \<in> R\<^sup>*" "(w, z) \<in> R" by (auto dest: tranclD2)
      with U step.hyps(2) have "w = y" by blast
      with w step.hyps(2) have "(y, y) \<in> R\<^sup>+" by auto
      with step.IH show False by blast
    qed
  qed
qed

lemma child_rel_iff: "(p, c) \<in> child_rel h \<longleftrightarrow> c \<in> set (child_refs h p)"
  by (simp add: child_rel_def)

lemma forest_rel_subset: "forest_rel t \<subseteq> child_rel (heap t)"
  by (auto simp: forest_rel_def)

lemma well_shaped_acyclic:
  assumes "well_shaped t"
  shows "acyclic (forest_rel t)"
proof (rule acyclicI, rule allI, rule notI)
  fix x assume c: "(x, x) \<in> (forest_rel t)\<^sup>+"
  then obtain z where "(x, z) \<in> forest_rel t" by (auto dest: tranclD)
  then have x: "x \<in> (child_rel (heap t))\<^sup>* `` set (roots t)"
    by (simp add: forest_rel_def forest_nodes_def)
  have "(x, x) \<in> (child_rel (heap t))\<^sup>+"
    using c trancl_mono[OF _ forest_rel_subset] by blast
  moreover have "(x, x) \<notin> (child_rel (heap t))\<^sup>+"
    using assms by (intro no_cycle_below_roots[OF _ _ x]) (auto simp: well_shaped_def child_rel_iff)
  ultimately show False by blast
qed

lemma build_built: "buildMessageTree ms = Some (built ms)"
  by (simp add: build_closed built_def)

lemma child_refs_built: "child_refs (heap (built ms)) r = kids (H0 ms) (patchedMessages ms) r"
  by (simp add: built_def child_refs_build)

lemma roots_built: "roots (built ms) = tops (H0 ms) (patchedMessages ms)"
  by (simp add: built_def)

lemma heap_built_None: "heap (built ms) r = None \<longleftrightarrow> r \<notin> MapNode ` id' ` set ms"
  by (simp add: built_def H0_None)

lemma heap_built_id: "heap (built ms) r = Some n \<Longrightarrow> r = MapNode (id' n)"
  by (auto simp: built_def add_kids_def dest: H0_Some)

lemma in_kids: "c \<in> set (kids h ms p) \<longleftrightarrow> (\<exists>m\<in>set ms. c = MapNode (id' m) \<and> linked h m \<and> MapNode (the (reply_to_id m)) = p)"
  by (auto simp: kids_def)

lemma in_tops: "c \<in> set (tops h ms) \<longleftrightarrow> (\<exists>m\<in>set ms. c = MapNode (id' m) \<and> \<not> linked h m)"
  by (auto simp: tops_def)

lemma distinct_kids: "distinct (map id' ms) \<Longrightarrow> distinct (kids h ms p)"
  unfolding kids_def by (induction ms) auto

lemma distinct_tops: "distinct (map id' ms) \<Longrightarrow> distinct (tops h ms)"
  unfolding tops_def by (induction ms) auto

lemma same_id: "distinct (map id' ms) \<Longrightarrow> m \<in> set ms \<Longrightarrow> m' \<in> set ms \<Longrightarrow> id' m = id' m' \<Longrightarrow> m = m'"
  by (meson distinct_map inj_on_def)

lemma built_well_shaped:
  assumes d: "distinct (map id' ms)"
  shows "well_shaped (built ms)"
proof -
  let ?P = "patchedMessages ms"
  have dP: "distinct (map id' ?P)" using d by simp
  have 1: "distinct (roots (built ms))" using distinct_tops[OF dP] by (simp add: roots_built)
  have 2: "\<forall>p. distinct (child_refs (heap (built ms)) p)" using distinct_kids[OF dP] by (simp add: child_refs_built)
  have 3: "\<forall>p p' c. c \<in> set (child_refs (heap (built ms)) p) \<longrightarrow> c \<in> set (child_refs (heap (built ms)) p') \<longrightarrow> p = p'"
    unfolding child_refs_built in_kids using same_id[OF dP] by blast
  have 4: "\<forall>p c. c \<in> set (child_refs (heap (built ms)) p) \<longrightarrow> c \<notin> set (roots (built ms))"
    unfolding child_refs_built roots_built in_kids in_tops using same_id[OF dP] by blast
  have 5: "set (roots (built ms)) \<subseteq> dom (heap (built ms))"
  proof
    fix c assume "c \<in> set (roots (built ms))"
    then obtain m where "m \<in> set ?P" "c = MapNode (id' m)" by (auto simp: roots_built in_tops)
    then have "c \<in> MapNode ` id' ` set ?P" by blast
    then show "c \<in> dom (heap (built ms))" using heap_built_None[of ms c] by auto
  qed
  have 6: "\<forall>p. set (child_refs (heap (built ms)) p) \<subseteq> dom (heap (built ms))"
  proof (intro allI subsetI)
    fix p c assume "c \<in> set (child_refs (heap (built ms)) p)"
    then obtain m where "m \<in> set ?P" "c = MapNode (id' m)" by (auto simp: child_refs_built in_kids)
    then have "c \<in> MapNode ` id' ` set ?P" by blast
    then show "c \<in> dom (heap (built ms))" using heap_built_None[of ms c] by auto
  qed
  from 1 2 3 4 5 6 show ?thesis unfolding well_shaped_def by blast
qed

lemma attachToNode_Nil: "attachToNode a h [] = Some (False, h)"
  by (subst attachToNode.simps) simp

lemma attachToNode_Cons:
  "attachToNode a h (node # rest) =
     (case h node of
        None \<Rightarrow> None
      | Some n \<Rightarrow>
          if id' n = a then Some (True, h(node \<mapsto> n\<lparr>children := children n @ [StreamingNode]\<rparr>))
          else Option.bind (attachToNode a h (children n))
                 (\<lambda>(found, h'). if found then Some (True, h') else attachToNode a h' rest))"
  by (subst attachToNode.simps) simp

lemma below_Cons:
  "r0 \<in> (child_rel h)\<^sup>* `` set (r # rs) \<longleftrightarrow>
   r0 = r \<or> r0 \<in> (child_rel h)\<^sup>* `` set (child_refs h r) \<or> r0 \<in> (child_rel h)\<^sup>* `` set rs"
proof -
  have "(r, r0) \<in> (child_rel h)\<^sup>* \<longleftrightarrow> r0 = r \<or> (\<exists>c \<in> set (child_refs h r). (c, r0) \<in> (child_rel h)\<^sup>*)"
    by (auto simp: child_rel_iff elim: converse_rtranclE intro: converse_rtrancl_into_rtrancl)
  then show ?thesis by auto
qed

lemma attach_list:
  assumes dom: "\<And>r. r \<in> S \<Longrightarrow> h r \<noteq> None"
    and match: "\<And>r n. r \<in> S \<Longrightarrow> h r = Some n \<Longrightarrow> (id' n = a \<longleftrightarrow> r = r0)"
  shows "set rs \<subseteq> S \<Longrightarrow>
         (\<And>r. r \<in> set rs \<Longrightarrow> r \<noteq> r0 \<Longrightarrow>
            attachToNode a h (child_refs h r) = Some (attach_result h r0 (child_refs h r))) \<Longrightarrow>
         attachToNode a h rs = Some (attach_result h r0 rs)"
proof (induction rs)
  case Nil
  show ?case by (simp add: attachToNode_Nil attach_result_def)
next
  case (Cons r rs)
  from Cons.prems(1) have rS: "r \<in> S" by simp
  with dom obtain n where n: "h r = Some n" by blast
  have IH: "attachToNode a h rs = Some (attach_result h r0 rs)"
    using Cons.prems by (intro Cons.IH) auto
  have res: "attach_result h r0 (r # rs) =
      (if r0 = r \<or> r0 \<in> (child_rel h)\<^sup>* `` set (child_refs h r) \<or> r0 \<in> (child_rel h)\<^sup>* `` set rs
       then (True, push_streaming h r0) else (False, h))"
    by (simp only: attach_result_def below_Cons)
  have "attachToNode a h (r # rs) = Some (if r0 = r \<or> r0 \<in> (child_rel h)\<^sup>* `` set (child_refs h r) \<or> r0 \<in> (child_rel h)\<^sup>* `` set rs
       then (True, push_streaming h r0) else (False, h))"
  proof (cases "r = r0")
    case True
    then have "id' n = a" using match[OF rS n] by simp
    then show ?thesis using n True
      by (simp add: attachToNode_Cons push_streaming_def)
  next
    case False
    then have ne: "id' n \<noteq> a" using match[OF rS n] by simp
    have ch: "attachToNode a h (children n) = Some (attach_result h r0 (children n))"
      using Cons.prems(2)[of r] False n by (simp add: child_refs_def)
    have cr: "child_refs h r = children n" using n by (simp add: child_refs_def)
    show ?thesis
    proof (cases "r0 \<in> (child_rel h)\<^sup>* `` set (children n)")
      case True
      then show ?thesis using n ne ch False cr
        by (simp add: attachToNode_Cons attach_result_def)
    next
      case nb: False
      then show ?thesis using n ne ch False cr IH
        by (simp add: attachToNode_Cons attach_result_def)
    qed
  qed
  then show ?case by (simp only: res)
qed

lemma attach_region:
  assumes dom: "\<And>r. r \<in> S \<Longrightarrow> h r \<noteq> None"
    and match: "\<And>r n. r \<in> S \<Longrightarrow> h r = Some n \<Longrightarrow> (id' n = a \<longleftrightarrow> r = r0)"
    and closed: "\<And>r. r \<in> S \<Longrightarrow> set (child_refs h r) \<subseteq> S"
    and wf: "wf {(c, p). p \<in> S \<and> c \<in> set (child_refs h p)}"
    and rs: "set rs \<subseteq> S"
  shows "attachToNode a h rs = Some (attach_result h r0 rs)"
proof -
  have Q: "r \<in> S \<longrightarrow> attachToNode a h (child_refs h r) = Some (attach_result h r0 (child_refs h r))" for r
  proof (induction r rule: wf_induct_rule[OF wf])
    case (1 p)
    show ?case
    proof
      assume pS: "p \<in> S"
      show "attachToNode a h (child_refs h p) = Some (attach_result h r0 (child_refs h p))"
      proof (rule attach_list[where S = S])
        show "set (child_refs h p) \<subseteq> S" using closed[OF pS] .
      next
        fix r assume "r \<in> set (child_refs h p)"
        then show "attachToNode a h (child_refs h r) = Some (attach_result h r0 (child_refs h r))"
          using 1[of r] pS closed[OF pS] by auto
      qed (use dom match in auto)
    qed
  qed
  show ?thesis
    by (rule attach_list[where S = S]) (use dom match rs Q in auto)
qed

lemma child_refs_alloc:
  "h StreamingNode = None \<Longrightarrow> child_refs (h(StreamingNode \<mapsto> streamingMsg c now)) r = child_refs h r"
  by (simp add: child_refs_def streamingMsg_def)

lemma child_rel_alloc:
  "h StreamingNode = None \<Longrightarrow> child_rel (h(StreamingNode \<mapsto> streamingMsg c now)) = child_rel h"
  by (simp add: child_rel_def child_refs_alloc)

lemma heap_built_Streaming [simp]: "heap (built ms) StreamingNode = None"
  by (auto simp: heap_built_None)

lemma forest_nodes_closed: "r \<in> forest_nodes t \<Longrightarrow> c \<in> set (child_refs (heap t) r) \<Longrightarrow> c \<in> forest_nodes t"
proof -
  assume "r \<in> forest_nodes t" and c: "c \<in> set (child_refs (heap t) r)"
  then obtain x where x: "x \<in> set (roots t)" "(x, r) \<in> (child_rel (heap t))\<^sup>*"
    by (auto simp: forest_nodes_def)
  from c have "(r, c) \<in> child_rel (heap t)" by (simp add: child_rel_iff)
  with x(2) have "(x, c) \<in> (child_rel (heap t))\<^sup>*" by (rule rtrancl_into_rtrancl)
  with x(1) show ?thesis unfolding forest_nodes_def by blast
qed

lemma forest_nodes_dom:
  assumes "well_shaped t" "r \<in> forest_nodes t"
  shows "heap t r \<noteq> None"
proof -
  from assms(2) obtain x where x: "x \<in> set (roots t)" and xr: "(x, r) \<in> (child_rel (heap t))\<^sup>*"
    by (auto simp: forest_nodes_def)
  from xr x show ?thesis
  proof (induction rule: rtrancl_induct)
    case base
    then show ?case using assms(1) by (auto simp: well_shaped_def)
  next
    case (step y z)
    then show ?case using assms(1) by (auto simp: well_shaped_def child_rel_iff)
  qed
qed

lemma finite_child_rel_built: "finite (child_rel (heap (built ms)))"
proof -
  have "child_rel (heap (built ms)) \<subseteq>
        (\<lambda>m. (MapNode (the (reply_to_id m)), MapNode (id' m))) ` set (patchedMessages ms)"
    by (auto simp: child_rel_def child_refs_built in_kids)
  then show ?thesis by (rule finite_subset) simp
qed

lemma forest_rel_converse: "{(c, p). p \<in> forest_nodes t \<and> c \<in> set (child_refs (heap t) p)} = (forest_rel t)\<inverse>"
  by (auto simp: forest_rel_def child_rel_iff)

lemma wf_forest:
  assumes "well_shaped t" "finite (child_rel (heap t))"
  shows "wf {(c, p). p \<in> forest_nodes t \<and> c \<in> set (child_refs (heap t) p)}"
  unfolding forest_rel_converse
  by (rule finite_acyclic_wf_converse)
     (use assms forest_rel_subset in \<open>auto intro: finite_subset well_shaped_acyclic\<close>)

lemma attach_built:
  assumes d: "distinct (map id' ms)"
  shows "attachToNode a ((heap (built ms))(StreamingNode \<mapsto> streamingMsg c now)) (roots (built ms))
         = Some (if MapNode a \<in> forest_nodes (built ms)
                 then (True, push_streaming ((heap (built ms))(StreamingNode \<mapsto> streamingMsg c now)) (MapNode a))
                 else (False, (heap (built ms))(StreamingNode \<mapsto> streamingMsg c now)))"
proof -
  let ?b = "built ms"
  let ?h = "(heap ?b)(StreamingNode \<mapsto> streamingMsg c now)"
  have ws: "well_shaped ?b" using d by (rule built_well_shaped)
  have cr: "child_refs ?h r = child_refs (heap ?b) r" for r by (simp add: child_refs_alloc)
  have crel: "child_rel ?h = child_rel (heap ?b)" by (simp add: child_rel_alloc)
  have "attachToNode a ?h (roots ?b) = Some (attach_result ?h (MapNode a) (roots ?b))"
  proof (rule attach_region[where S = "forest_nodes ?b"])
    fix r assume "r \<in> forest_nodes ?b"
    then show "?h r \<noteq> None" using forest_nodes_dom[OF ws] by auto
  next
    fix r n assume r: "r \<in> forest_nodes ?b" and n: "?h r = Some n"
    from r have "heap ?b r \<noteq> None" using forest_nodes_dom[OF ws] by auto
    then have "r \<noteq> StreamingNode" by auto
    with n have "heap ?b r = Some n" by simp
    then have "r = MapNode (id' n)" by (rule heap_built_id)
    then show "(id' n = a) = (r = MapNode a)" by auto
  next
    fix r assume "r \<in> forest_nodes ?b"
    then show "set (child_refs ?h r) \<subseteq> forest_nodes ?b"
      unfolding cr using forest_nodes_closed by blast
  next
    show "wf {(c, p). p \<in> forest_nodes ?b \<and> c \<in> set (child_refs ?h p)}"
      unfolding cr using wf_forest[OF ws finite_child_rel_built] .
  next
    show "set (roots ?b) \<subseteq> forest_nodes ?b" by (auto simp: forest_nodes_def)
  qed
  then show ?thesis by (simp add: attach_result_def crel forest_nodes_def)
qed

lemma messageTree_closed:
  assumes d: "distinct (map id' ms)"
  shows "messageTree ms s c now = Some (if s then grafted ms c now else built ms)"
  using attach_built[OF d, of "id' (last ms)" c now]
  by (simp add: messageTree_def build_built grafted_def Let_def)

lemma Streaming_not_child_built [simp]: "StreamingNode \<notin> set (child_refs (heap (built ms)) p)"
  by (auto simp: child_refs_built in_kids)

lemma Streaming_not_root_built [simp]: "StreamingNode \<notin> set (roots (built ms))"
  by (auto simp: roots_built in_tops)

lemma child_refs_push:
  "h r0 \<noteq> None \<Longrightarrow> child_refs (push_streaming h r0) r = child_refs h r @ (if r = r0 then [StreamingNode] else [])"
  by (auto simp: push_streaming_def child_refs_def)

lemma dom_push: "push_streaming h r0 r = None \<longleftrightarrow> h r = None"
  by (auto simp: push_streaming_def split: option.splits)

lemma last_in_heap: "ms \<noteq> [] \<Longrightarrow> heap (built ms) (MapNode (id' (last ms))) \<noteq> None"
  by (simp add: heap_built_None)

lemma roots_grafted:
  "roots (grafted ms c now) = roots (built ms) @ (if attached ms then [] else [StreamingNode])"
  by (simp add: grafted_def attached_def Let_def)

lemma child_refs_grafted:
  "child_refs (heap (grafted ms c now)) r =
     child_refs (heap (built ms)) r @ (if attached ms \<and> r = MapNode (id' (last ms)) then [StreamingNode] else [])"
proof (cases "attached ms")
  case True
  then have "((heap (built ms))(StreamingNode \<mapsto> streamingMsg c now)) (MapNode (id' (last ms))) \<noteq> None"
    using last_in_heap[of ms] by (simp add: attached_def)
  from child_refs_push[of "(heap (built ms))(StreamingNode \<mapsto> streamingMsg c now)" "MapNode (id' (last ms))" r, OF this] True show ?thesis
    by (simp add: grafted_def attached_def Let_def child_refs_alloc)
next
  case False
  then show ?thesis by (auto simp: grafted_def attached_def Let_def child_refs_alloc)
qed

lemma heap_grafted_None:
  "heap (grafted ms c now) r = None \<longleftrightarrow> r \<noteq> StreamingNode \<and> heap (built ms) r = None"
  by (auto simp: grafted_def Let_def dom_push)

lemma grafted_well_shaped:
  assumes d: "distinct (map id' ms)"
  shows "well_shaped (grafted ms c now)"
proof -
  let ?g = "grafted ms c now" and ?b = "built ms"
  have ws: "well_shaped ?b" using d by (rule built_well_shaped)
  have 1: "distinct (roots ?g)" using ws by (simp add: roots_grafted well_shaped_def)
  have 2: "\<forall>p. distinct (child_refs (heap ?g) p)"
  proof
    fix p
    have "distinct (child_refs (heap ?b) p)" using ws by (simp add: well_shaped_def)
    then show "distinct (child_refs (heap ?g) p)" by (auto simp: child_refs_grafted)
  qed
  have 3: "\<forall>p p' c. c \<in> set (child_refs (heap ?g) p) \<longrightarrow> c \<in> set (child_refs (heap ?g) p') \<longrightarrow> p = p'"
  proof (intro allI impI)
    fix p p' c assume a: "c \<in> set (child_refs (heap ?g) p)" and b: "c \<in> set (child_refs (heap ?g) p')"
    show "p = p'"
    proof (cases "c = StreamingNode")
      case True
      with a b show ?thesis by (auto simp: child_refs_grafted split: if_splits)
    next
      case False
      with a b have "c \<in> set (child_refs (heap ?b) p)" "c \<in> set (child_refs (heap ?b) p')"
        by (auto simp: child_refs_grafted split: if_splits)
      with ws show ?thesis unfolding well_shaped_def by blast
    qed
  qed
  have 4: "\<forall>p c. c \<in> set (child_refs (heap ?g) p) \<longrightarrow> c \<notin> set (roots ?g)"
  proof (intro allI impI)
    fix p c assume a: "c \<in> set (child_refs (heap ?g) p)"
    show "c \<notin> set (roots ?g)"
    proof (cases "c = StreamingNode")
      case True
      with a show ?thesis by (auto simp: child_refs_grafted roots_grafted split: if_splits)
    next
      case False
      with a have "c \<in> set (child_refs (heap ?b) p)"
        by (auto simp: child_refs_grafted split: if_splits)
      with ws have "c \<notin> set (roots ?b)" unfolding well_shaped_def by blast
      with False show ?thesis by (simp add: roots_grafted)
    qed
  qed
  have 5: "set (roots ?g) \<subseteq> dom (heap ?g)"
    using ws by (auto simp: roots_grafted well_shaped_def heap_grafted_None dom_def)
  have 6: "\<forall>p. set (child_refs (heap ?g) p) \<subseteq> dom (heap ?g)"
    using ws by (auto simp: child_refs_grafted well_shaped_def heap_grafted_None dom_def split: if_splits)
  from 1 2 3 4 5 6 show ?thesis unfolding well_shaped_def by blast
qed

lemma ancestors_chain:
  assumes U: "\<And>p p' c. (p, c) \<in> R \<Longrightarrow> (p', c) \<in> R \<Longrightarrow> p = p'"
  shows "(a, z) \<in> R\<^sup>* \<Longrightarrow> (b, z) \<in> R\<^sup>* \<Longrightarrow> (a, b) \<in> R\<^sup>* \<or> (b, a) \<in> R\<^sup>*"
proof (induction arbitrary: b rule: rtrancl_induct)
  case base
  then show ?case by simp
next
  case (step y z)
  from step.prems show ?case
  proof (cases rule: rtranclE)
    case base
    with step.hyps show ?thesis by auto
  next
    case (step w)
    with U step.hyps(2) have "w = y" by blast
    with step(1) step.IH show ?thesis by blast
  qed
qed

lemma spread_tail: "spread h (r # rs) \<Longrightarrow> spread h rs"
  by (simp add: spread_def)

lemma well_shaped_unique:
  "well_shaped t \<Longrightarrow> (p, c) \<in> child_rel (heap t) \<Longrightarrow> (p', c) \<in> child_rel (heap t) \<Longrightarrow> p = p'"
  unfolding well_shaped_def child_rel_iff by blast

lemma spread_roots:
  assumes ws: "well_shaped t"
  shows "spread (heap t) (roots t)"
proof -
  let ?R = "child_rel (heap t)"
  have N: "(p, c) \<in> ?R \<Longrightarrow> c \<notin> set (roots t)" for p c
    using ws unfolding well_shaped_def child_rel_iff by blast
  have np: "a \<in> set (roots t) \<Longrightarrow> (x, a) \<notin> ?R\<^sup>+" for a x
    using N by (auto dest: tranclD2)
  have "(?R\<^sup>* `` {a}) \<inter> (?R\<^sup>* `` {b}) = {}"
    if "a \<in> set (roots t)" "b \<in> set (roots t)" "a \<noteq> b" for a b
  proof (rule ccontr)
    assume "(?R\<^sup>* `` {a}) \<inter> (?R\<^sup>* `` {b}) \<noteq> {}"
    then obtain z where "(a, z) \<in> ?R\<^sup>*" "(b, z) \<in> ?R\<^sup>*" by auto
    then have "(a, b) \<in> ?R\<^sup>* \<or> (b, a) \<in> ?R\<^sup>*"
      using ancestors_chain[of ?R a z b] well_shaped_unique[OF ws] by blast
    with that(3) have "(a, b) \<in> ?R\<^sup>+ \<or> (b, a) \<in> ?R\<^sup>+" by (auto simp: rtrancl_eq_or_trancl)
    with np that show False by blast
  qed
  moreover have "distinct (roots t)" using ws by (simp add: well_shaped_def)
  ultimately show ?thesis using np unfolding spread_def by blast
qed

lemma spread_children:
  assumes ws: "well_shaped t" and sp: "spread (heap t) rs" and r: "r \<in> set rs"
  shows "spread (heap t) (child_refs (heap t) r)"
proof -
  let ?R = "child_rel (heap t)"
  have rr: "(r, r) \<notin> ?R\<^sup>+" using sp r by (simp add: spread_def)
  have up: "(x, a) \<in> ?R\<^sup>+ \<Longrightarrow> (x, r) \<in> ?R\<^sup>*" if "a \<in> set (child_refs (heap t) r)" for a x
  proof -
    assume "(x, a) \<in> ?R\<^sup>+"
    then obtain w where w: "(x, w) \<in> ?R\<^sup>*" "(w, a) \<in> ?R" by (auto dest: tranclD2)
    moreover have "(r, a) \<in> ?R" using that by (simp add: child_rel_iff)
    ultimately show ?thesis using well_shaped_unique[OF ws] by blast
  qed
  have cyc: "(a, r) \<in> ?R\<^sup>* \<Longrightarrow> False" if "a \<in> set (child_refs (heap t) r)" for a
  proof -
    assume "(a, r) \<in> ?R\<^sup>*"
    moreover have "(r, a) \<in> ?R" using that by (simp add: child_rel_iff)
    ultimately have "(r, r) \<in> ?R\<^sup>+" by auto
    with rr show False by blast
  qed
  have 1: "(a, a) \<notin> ?R\<^sup>+" if "a \<in> set (child_refs (heap t) r)" for a
    using up[OF that, of a] cyc[OF that] by blast
  have 2: "(?R\<^sup>* `` {a}) \<inter> (?R\<^sup>* `` {b}) = {}"
    if "a \<in> set (child_refs (heap t) r)" "b \<in> set (child_refs (heap t) r)" "a \<noteq> b" for a b
  proof (rule ccontr)
    assume "(?R\<^sup>* `` {a}) \<inter> (?R\<^sup>* `` {b}) \<noteq> {}"
    then obtain z where "(a, z) \<in> ?R\<^sup>*" "(b, z) \<in> ?R\<^sup>*" by auto
    then have "(a, b) \<in> ?R\<^sup>* \<or> (b, a) \<in> ?R\<^sup>*"
      using ancestors_chain[of ?R a z b] well_shaped_unique[OF ws] by blast
    with that(3) have "(a, b) \<in> ?R\<^sup>+ \<or> (b, a) \<in> ?R\<^sup>+" by (auto simp: rtrancl_eq_or_trancl)
    then show False using up[OF that(2), of a] up[OF that(1), of b] cyc[OF that(1)] cyc[OF that(2)] by blast
  qed
  have "distinct (child_refs (heap t) r)" using ws by (simp add: well_shaped_def)
  with 1 2 show ?thesis unfolding spread_def by blast
qed

lemma rendering_set: "rendering h rs xs \<Longrightarrow> set xs = (child_rel h)\<^sup>* `` set rs"
proof (induction rule: rendering.induct)
  case (rendering_Nil h)
  show ?case by simp
next
  case (rendering_Cons h r n xs rs ys)
  have cr: "child_refs h r = children n" using rendering_Cons.hyps(1) by (simp add: child_refs_def)
  have "x \<in> (child_rel h)\<^sup>* `` set (r # rs) \<longleftrightarrow> x \<in> set (r # xs @ ys)" for x
    unfolding below_Cons cr using rendering_Cons.IH by auto
  then show ?case by blast
qed

lemma rendering_distinct:
  assumes ws: "well_shaped t"
  shows "rendering h rs xs \<Longrightarrow> h = heap t \<Longrightarrow> spread h rs \<Longrightarrow> distinct xs"
proof (induction rule: rendering.induct)
  case (rendering_Nil h)
  show ?case by simp
next
  case (rendering_Cons h r n xs rs ys)
  let ?R = "child_rel h"
  have cr: "child_refs h r = children n" using rendering_Cons.hyps(1) by (simp add: child_refs_def)
  have sp: "spread h (r # rs)" by fact
  have h: "h = heap t" by fact
  have "spread h (children n)" using spread_children[OF ws, of "r # rs" r] sp h cr by simp
  then have dx: "distinct xs" using rendering_Cons.IH(1) h by simp
  have dy: "distinct ys" using rendering_Cons.IH(2) h spread_tail[OF sp] by simp
  have sx: "set xs = ?R\<^sup>* `` set (children n)" using rendering_Cons.hyps(2) by (rule rendering_set)
  have sy: "set ys = ?R\<^sup>* `` set rs" using rendering_Cons.hyps(3) by (rule rendering_set)
  have below: "x \<in> set xs \<Longrightarrow> (r, x) \<in> ?R\<^sup>+" for x
    unfolding sx using cr by (auto simp: child_rel_iff intro: rtrancl_into_trancl2)
  have rx: "r \<notin> set xs" using below[of r] sp by (auto simp: spread_def)
  have disj: "x \<in> ?R\<^sup>* `` {r} \<Longrightarrow> x \<notin> set ys" for x
  proof
    assume x: "x \<in> ?R\<^sup>* `` {r}" "x \<in> set ys"
    then obtain b where b: "b \<in> set rs" "x \<in> ?R\<^sup>* `` {b}" unfolding sy by auto
    then have "b \<noteq> r" using sp by (auto simp: spread_def)
    then have "?R\<^sup>* `` {r} \<inter> ?R\<^sup>* `` {b} = {}" using sp b(1) by (simp add: spread_def)
    with x(1) b(2) show False by blast
  qed
  have ry: "r \<notin> set ys" using disj[of r] by auto
  have xy: "set xs \<inter> set ys = {}" using below disj by (auto dest: trancl_into_rtrancl)
  from dx dy rx ry xy show ?case by simp
qed

lemma rendering_list:
  assumes dom: "\<And>r. r \<in> S \<Longrightarrow> h r \<noteq> None"
  shows "set rs \<subseteq> S \<Longrightarrow> (\<And>r. r \<in> set rs \<Longrightarrow> \<exists>xs. rendering h (child_refs h r) xs) \<Longrightarrow>
         \<exists>xs. rendering h rs xs"
proof (induction rs)
  case Nil
  show ?case by (auto intro: rendering.intros)
next
  case (Cons r rs)
  from Cons.prems(1) dom obtain n where n: "h r = Some n" by auto
  from Cons.prems(2)[of r] n obtain xs where xs: "rendering h (children n) xs" by (auto simp: child_refs_def)
  from Cons.IH Cons.prems obtain ys where "rendering h rs ys" by auto
  with n xs show ?case by (auto intro: rendering.intros)
qed

lemma rendering_region:
  assumes dom: "\<And>r. r \<in> S \<Longrightarrow> h r \<noteq> None"
    and closed: "\<And>r. r \<in> S \<Longrightarrow> set (child_refs h r) \<subseteq> S"
    and wf: "wf {(c, p). p \<in> S \<and> c \<in> set (child_refs h p)}"
    and rs: "set rs \<subseteq> S"
  shows "\<exists>xs. rendering h rs xs"
proof -
  have Q: "r \<in> S \<longrightarrow> (\<exists>xs. rendering h (child_refs h r) xs)" for r
  proof (induction r rule: wf_induct_rule[OF wf])
    case (1 p)
    show ?case
    proof
      assume pS: "p \<in> S"
      show "\<exists>xs. rendering h (child_refs h p) xs"
      proof (rule rendering_list[where S = S])
        show "set (child_refs h p) \<subseteq> S" using closed[OF pS] .
      next
        fix r assume "r \<in> set (child_refs h p)"
        then show "\<exists>xs. rendering h (child_refs h r) xs"
          using 1[of r] pS closed[OF pS] by auto
      qed (use dom in auto)
    qed
  qed
  show ?thesis
    by (rule rendering_list[where S = S]) (use dom rs Q in auto)
qed

lemma well_shaped_rendering:
  assumes ws: "well_shaped t" and fin: "finite (child_rel (heap t))"
  shows "\<exists>xs. rendering (heap t) (roots t) xs \<and> distinct xs \<and> set xs = forest_nodes t"
proof -
  have "\<exists>xs. rendering (heap t) (roots t) xs"
  proof (rule rendering_region[where S = "forest_nodes t"])
    show "wf {(c, p). p \<in> forest_nodes t \<and> c \<in> set (child_refs (heap t) p)}"
      using ws fin by (rule wf_forest)
  next
    show "set (roots t) \<subseteq> forest_nodes t" by (auto simp: forest_nodes_def)
  qed (use ws forest_nodes_dom forest_nodes_closed in auto)
  then obtain xs where xs: "rendering (heap t) (roots t) xs" ..
  have "distinct xs" using rendering_distinct[OF ws xs refl] spread_roots[OF ws] by simp
  moreover have "set xs = forest_nodes t" using rendering_set[OF xs] by (simp add: forest_nodes_def)
  ultimately show ?thesis using xs by blast
qed

lemma child_rel_built: "child_rel (heap (built ms)) = reply_links ms"
  by (auto simp: child_rel_def child_refs_built in_kids reply_links_def linked_H0)

lemma all_reachable:
  assumes ac: "acyclic (reply_links ms)"
  shows "m \<in> set (patchedMessages ms) \<Longrightarrow> MapNode (id' m) \<in> forest_nodes (built ms)"
proof -
  let ?P = "patchedMessages ms"
  have "wf (reply_links ms)"
    by (rule finite_acyclic_wf) (use ac in \<open>simp_all add: reply_links_def\<close>)
  then have "\<forall>m\<in>set ?P. x = MapNode (id' m) \<longrightarrow> x \<in> forest_nodes (built ms)" for x
  proof (induction x rule: wf_induct_rule)
    case (less x)
    show ?case
    proof (intro ballI impI)
      fix m assume m: "m \<in> set ?P" and x: "x = MapNode (id' m)"
      show "x \<in> forest_nodes (built ms)"
      proof (cases "linked (H0 ms) m")
        case True
        let ?p = "MapNode (the (reply_to_id m))"
        have c: "x \<in> set (child_refs (heap (built ms)) ?p)"
          using True m x by (auto simp: child_refs_built in_kids)
        then have "(?p, x) \<in> reply_links ms" by (simp add: child_rel_built[symmetric] child_rel_iff)
        moreover have "the (reply_to_id m) \<in> id' ` set ?P" using True by (simp add: linked_H0)
        then obtain m' where "m' \<in> set ?P" "?p = MapNode (id' m')" by blast
        ultimately have "?p \<in> forest_nodes (built ms)" using less by blast
        then show ?thesis using c by (rule forest_nodes_closed)
      next
        case False
        then have "x \<in> set (roots (built ms))" using m x by (auto simp: roots_built in_tops)
        then show ?thesis by (auto simp: forest_nodes_def)
      qed
    qed
  qed
  then show "m \<in> set ?P \<Longrightarrow> MapNode (id' m) \<in> forest_nodes (built ms)" by blast
qed

lemma forest_nodes_built_subset:
  assumes d: "distinct (map id' ms)"
  shows "forest_nodes (built ms) \<subseteq> MapNode ` id' ` set ms"
proof
  fix r assume "r \<in> forest_nodes (built ms)"
  then have "heap (built ms) r \<noteq> None" by (rule forest_nodes_dom[OF built_well_shaped[OF d]])
  then show "r \<in> MapNode ` id' ` set ms" by (simp add: heap_built_None)
qed

lemma forest_nodes_built:
  assumes d: "distinct (map id' ms)" and ac: "acyclic (reply_links ms)"
  shows "forest_nodes (built ms) = MapNode ` id' ` set ms"
proof
  show "forest_nodes (built ms) \<subseteq> MapNode ` id' ` set ms" using d by (rule forest_nodes_built_subset)
  show "MapNode ` id' ` set ms \<subseteq> forest_nodes (built ms)"
  proof
    fix x assume "x \<in> MapNode ` id' ` set ms"
    then have "x \<in> MapNode ` id' ` set (patchedMessages ms)" by simp
    then obtain m where "m \<in> set (patchedMessages ms)" "x = MapNode (id' m)" by blast
    then show "x \<in> forest_nodes (built ms)" using all_reachable[OF ac] by simp
  qed
qed

lemma child_rel_grafted:
  "child_rel (heap (grafted ms c now)) =
     child_rel (heap (built ms)) \<union> (if attached ms then {(MapNode (id' (last ms)), StreamingNode)} else {})"
  by (auto simp: child_rel_def child_refs_grafted split: if_splits)

lemma finite_child_rel_grafted: "finite (child_rel (heap (grafted ms c now)))"
  by (simp add: child_rel_grafted finite_child_rel_built)

lemma forest_nodes_mono: "forest_nodes (built ms) \<subseteq> forest_nodes (grafted ms c now)"
proof -
  have "(child_rel (heap (built ms)))\<^sup>* \<subseteq> (child_rel (heap (grafted ms c now)))\<^sup>*"
    by (rule rtrancl_mono) (simp add: child_rel_grafted)
  moreover have "set (roots (built ms)) \<subseteq> set (roots (grafted ms c now))"
    by (simp add: roots_grafted)
  ultimately show ?thesis unfolding forest_nodes_def by blast
qed

lemma Streaming_in_grafted: "StreamingNode \<in> forest_nodes (grafted ms c now)"
proof (cases "attached ms")
  case True
  then have "MapNode (id' (last ms)) \<in> forest_nodes (grafted ms c now)"
    using forest_nodes_mono[of ms c now] by (auto simp: attached_def)
  moreover have "StreamingNode \<in> set (child_refs (heap (grafted ms c now)) (MapNode (id' (last ms))))"
    using True by (simp add: child_refs_grafted)
  ultimately show ?thesis by (rule forest_nodes_closed)
next
  case False
  then have "StreamingNode \<in> set (roots (grafted ms c now))" by (simp add: roots_grafted)
  then show ?thesis by (auto simp: forest_nodes_def)
qed

lemma forest_nodes_grafted_subset:
  assumes d: "distinct (map id' ms)"
  shows "forest_nodes (grafted ms c now) \<subseteq> insert StreamingNode (MapNode ` id' ` set ms)"
proof
  fix r assume "r \<in> forest_nodes (grafted ms c now)"
  then have "heap (grafted ms c now) r \<noteq> None" by (rule forest_nodes_dom[OF grafted_well_shaped[OF d]])
  then show "r \<in> insert StreamingNode (MapNode ` id' ` set ms)"
    by (auto simp: heap_grafted_None heap_built_None)
qed

lemma forest_nodes_grafted:
  assumes d: "distinct (map id' ms)" and ac: "acyclic (reply_links ms)"
  shows "forest_nodes (grafted ms c now) = insert StreamingNode (MapNode ` id' ` set ms)"
proof
  show "forest_nodes (grafted ms c now) \<subseteq> insert StreamingNode (MapNode ` id' ` set ms)"
    using d by (rule forest_nodes_grafted_subset)
  have "MapNode ` id' ` set ms \<subseteq> forest_nodes (grafted ms c now)"
    using forest_nodes_mono[of ms c now] by (simp add: forest_nodes_built[OF d ac])
  then show "insert StreamingNode (MapNode ` id' ` set ms) \<subseteq> forest_nodes (grafted ms c now)"
    using Streaming_in_grafted[of ms c now] by simp
qed

lemma rendering_mset:
  assumes "distinct xs" "set xs = set ys" "distinct ys"
  shows "mset xs = mset ys"
  using assms set_eq_iff_mset_eq_distinct by blast

lemma acyclic_empty_rel: "acyclic {}"
  by (simp add: acyclic_def)

lemmas eval_build = buildMessageTree_def link_step_def patchedMessages_def patch_def mk_message_def
  new_node_def message.defs message_node.defs

lemmas eval_tree = messageTree_def eval_build attachToNode_Cons attachToNode_Nil
  children_of_def roots_of_def child_refs_def streamingMsg_def

lemma patch_keeps:
  "\<not> (role m = Assistant \<and> \<not> truthy (reply_to_id m) \<and> 0 < i \<and> role (ms ! (i - 1)) = User) \<Longrightarrow>
   patch ms i m = m"
  by (auto simp: patch_def Let_def)

lemma patch_infers:
  "role m = Assistant \<Longrightarrow> \<not> truthy (reply_to_id m) \<Longrightarrow> 0 < i \<Longrightarrow> role (ms ! (i - 1)) = User \<Longrightarrow>
   patch ms i m = m\<lparr>reply_to_id := Some (id' (ms ! (i - 1)))\<rparr>"
  by (simp add: patch_def Let_def)

lemma stored_link_kept:
  assumes m: "m \<in> set messages" and tr: "truthy (reply_to_id m)"
  shows "m \<in> set (patchedMessages messages)"
proof -
  from m obtain i where i: "i < length messages" "messages ! i = m" by (auto simp: in_set_conv_nth)
  then have "patchedMessages messages ! i = m" using tr by (simp add: nth_patched patch_keeps)
  then show ?thesis using i(1) by (metis length_patched nth_mem)
qed

lemma rendering_unique: "rendering h rs xs \<Longrightarrow> rendering h rs ys \<Longrightarrow> xs = ys"
proof (induction arbitrary: ys rule: rendering.induct)
  case (rendering_Nil h)
  then show ?case by (auto elim: rendering.cases)
next
  case (rendering_Cons h r n xs rs zs)
  from rendering_Cons.prems obtain n' xs' zs' where
    "h r = Some n'" "rendering h (children n') xs'" "rendering h rs zs'" "ys = r # xs' @ zs'"
    by (auto elim: rendering.cases)
  with rendering_Cons.hyps(1) rendering_Cons.IH show ?case by auto
qed

section \<open>Claims about the tree builder\<close>

text \<open>
  Claim C1, as amended. When the ids of the input messages are pairwise distinct and the
  working reply links (the stored \<open>reply_to_id\<close>s and those of the inference pass, as far
  as they name a loaded message) contain no cycle, the memo returns a forest whose
  rendering lists every input message exactly once, and the streaming node exactly once
  if \<open>isStreaming\<close> holds and not at all otherwise.
\<close>

theorem forest_complete:
  assumes d: "distinct (map id' messages)" and ac: "acyclic (reply_links messages)"
  shows "\<exists>t xs. messageTree messages isStreaming streamingContent now = Some t \<and>
           rendering (heap t) (roots t) xs \<and>
           mset xs = mset (map (\<lambda>m. MapNode (id' m)) messages) +
                     (if isStreaming then {#StreamingNode#} else {#})"
proof (cases isStreaming)
  case True
  let ?t = "grafted messages streamingContent now"
  have mt: "messageTree messages isStreaming streamingContent now = Some ?t"
    using True by (simp add: messageTree_closed[OF d])
  obtain xs where xs: "rendering (heap ?t) (roots ?t) xs" "distinct xs" "set xs = forest_nodes ?t"
    using well_shaped_rendering[OF grafted_well_shaped[OF d] finite_child_rel_grafted] by blast
  have dm: "distinct (map (\<lambda>m. MapNode (id' m)) messages)"
    using d by (simp add: distinct_map inj_on_def)
  have "mset xs = mset (StreamingNode # map (\<lambda>m. MapNode (id' m)) messages)"
  proof (rule rendering_mset[OF xs(2)])
    show "set xs = set (StreamingNode # map (\<lambda>m. MapNode (id' m)) messages)"
      unfolding xs(3) forest_nodes_grafted[OF d ac] by auto
    show "distinct (StreamingNode # map (\<lambda>m. MapNode (id' m)) messages)"
      using dm by auto
  qed
  with mt xs(1) True show ?thesis by auto
next
  case False
  let ?t = "built messages"
  have mt: "messageTree messages isStreaming streamingContent now = Some ?t"
    using False by (simp add: messageTree_closed[OF d])
  obtain xs where xs: "rendering (heap ?t) (roots ?t) xs" "distinct xs" "set xs = forest_nodes ?t"
    using well_shaped_rendering[OF built_well_shaped[OF d] finite_child_rel_built] by blast
  have dm: "distinct (map (\<lambda>m. MapNode (id' m)) messages)"
    using d by (simp add: distinct_map inj_on_def)
  have "mset xs = mset (map (\<lambda>m. MapNode (id' m)) messages)"
  proof (rule rendering_mset[OF xs(2) _ dm])
    show "set xs = set (map (\<lambda>m. MapNode (id' m)) messages)"
      unfolding xs(3) forest_nodes_built[OF d ac] by auto
  qed
  with mt xs(1) False show ?thesis by auto
qed

text \<open>Claim C1: the amended statement at a thread of three messages, while streaming.\<close>

theorem forest_complete_witness:
  "distinct (map id' [mk_message 1 User None, mk_message 2 Assistant None, mk_message 3 User (Some 1)]) \<and>
   acyclic (reply_links [mk_message 1 User None, mk_message 2 Assistant None, mk_message 3 User (Some 1)]) \<and>
   (\<exists>t xs. messageTree [mk_message 1 User None, mk_message 2 Assistant None, mk_message 3 User (Some 1)]
              True ''Thinking'' [] = Some t \<and>
            rendering (heap t) (roots t) xs \<and>
            mset xs = {#StreamingNode, MapNode 1, MapNode 2, MapNode 3#})"
proof -
  let ?ms = "[mk_message 1 User None, mk_message 2 Assistant None, mk_message 3 User (Some 1)]"
  have d: "distinct (map id' ?ms)" by (simp add: mk_message_def)
  have ac: "acyclic (reply_links ?ms)"
    by (simp add: reply_links_def patchedMessages_def patch_def mk_message_def rtrancl_insert
        acyclic_empty_rel)
  from forest_complete[OF d ac, of True "''Thinking''" "[]"] d ac
  show ?thesis by (simp add: mk_message_def)
qed

text \<open>
  Claim C1 as stated fails: a single message that names itself as its parent is pushed
  onto its own children array and onto no root, so the returned forest is empty and the
  message is lost.
\<close>

theorem self_reply_lost:
  "roots_of (messageTree [mk_message 1 User (Some 1)] False [] []) = [] \<and>
   children_of (messageTree [mk_message 1 User (Some 1)] False [] []) (MapNode 1) = [MapNode 1] \<and>
   rendering (heap (the (messageTree [mk_message 1 User (Some 1)] False [] []))) [] [] \<and>
   mset [] \<noteq> mset (map (\<lambda>m. MapNode (id' m)) [mk_message 1 User (Some 1)])"
  by (simp add: eval_tree rendering.intros)

text \<open>
  Claim C2, as amended. For every list of messages with pairwise distinct ids, whatever
  their \<open>reply_to_id\<close>s are, the builder returns a forest, with or without the streaming
  graft, and the parent/child relation on the nodes of that forest (the nodes below its
  roots) is acyclic.
\<close>

theorem forest_acyclic:
  assumes "distinct (map id' messages)"
  shows "(\<exists>b. buildMessageTree messages = Some b \<and> acyclic (forest_rel b)) \<and>
         (\<exists>t. messageTree messages isStreaming streamingContent now = Some t \<and> acyclic (forest_rel t))"
  using assms
  by (auto simp: build_built messageTree_closed
      intro: well_shaped_acyclic built_well_shaped grafted_well_shaped)

text \<open>
  Claim C2 at an adversarial input: two messages that name each other, one that names
  itself and one with a dangling reference.
\<close>

theorem forest_acyclic_witness:
  "distinct (map id' [mk_message 1 User (Some 2), mk_message 2 User (Some 1), mk_message 3 User (Some 3),
                      mk_message 4 Assistant (Some 9)]) \<and>
   (\<exists>b. buildMessageTree [mk_message 1 User (Some 2), mk_message 2 User (Some 1), mk_message 3 User (Some 3),
                           mk_message 4 Assistant (Some 9)] = Some b \<and> acyclic (forest_rel b)) \<and>
   (\<exists>t. messageTree [mk_message 1 User (Some 2), mk_message 2 User (Some 1), mk_message 3 User (Some 3),
                      mk_message 4 Assistant (Some 9)] True ''x'' [] = Some t \<and> acyclic (forest_rel t))"
proof -
  let ?ms = "[mk_message 1 User (Some 2), mk_message 2 User (Some 1), mk_message 3 User (Some 3),
              mk_message 4 Assistant (Some 9)]"
  have d: "distinct (map id' ?ms)" by (simp add: mk_message_def)
  from forest_acyclic[OF d, of True "''x''" "[]"] d show ?thesis by blast
qed

text \<open>
  Claim C2 as stated fails: of two messages with the same id the second replaces the
  first in the map; when the second names that id as its parent, the one node is a root
  and its own child, so the forest has a cycle below its roots.
\<close>

theorem duplicate_id_cycle:
  "roots_of (buildMessageTree [mk_message 1 User None, mk_message 1 User (Some 1)]) = [MapNode 1] \<and>
   children_of (buildMessageTree [mk_message 1 User None, mk_message 1 User (Some 1)]) (MapNode 1)
     = [MapNode 1] \<and>
   \<not> acyclic (forest_rel (the (buildMessageTree [mk_message 1 User None, mk_message 1 User (Some 1)])))"
proof -
  let ?ms = "[mk_message 1 User None, mk_message 1 User (Some 1)]"
  have r: "roots_of (buildMessageTree ?ms) = [MapNode 1]"
    and c: "children_of (buildMessageTree ?ms) (MapNode 1) = [MapNode 1]"
    by (simp_all add: eval_build children_of_def roots_of_def child_refs_def)
  obtain b where b: "buildMessageTree ?ms = Some b" using build_built by blast
  from r c b have rb: "roots b = [MapNode 1]" and cb: "child_refs (heap b) (MapNode 1) = [MapNode 1]"
    by (simp_all add: roots_of_def children_of_def)
  have "MapNode 1 \<in> forest_nodes b" using rb by (simp add: forest_nodes_def)
  moreover have "(MapNode 1, MapNode 1) \<in> child_rel (heap b)" using cb by (simp add: child_rel_iff)
  ultimately have "(MapNode 1, MapNode 1) \<in> forest_rel b" by (simp add: forest_rel_def)
  then have "(MapNode 1, MapNode 1) \<in> (forest_rel b)\<^sup>+" by (rule r_into_trancl)
  then have "\<not> acyclic (forest_rel b)" by (auto simp: acyclic_def)
  with r c b show ?thesis by simp
qed

text \<open>
  Claim C3, as amended. When the last message has a \<open>reply_to_id\<close> (and ids are pairwise
  distinct), an active streaming node is pushed onto the children of the node of the last
  message itself, provided that node is in the forest; nothing else changes. When that node
  is not in the forest, the streaming node is appended to the roots.
\<close>

theorem streaming_attaches_to_last:
  assumes d: "distinct (map id' messages)" and ne: "messages \<noteq> []"
    and tr: "truthy (reply_to_id (last messages))"
  shows "\<exists>b t. buildMessageTree messages = Some b \<and>
           messageTree messages True streamingContent now = Some t \<and>
           (if MapNode (id' (last messages)) \<in> forest_nodes b
            then roots t = roots b \<and>
                 (\<forall>r. child_refs (heap t) r =
                       child_refs (heap b) r @
                       (if r = MapNode (id' (last messages)) then [StreamingNode] else []))
            else roots t = roots b @ [StreamingNode] \<and>
                 (\<forall>r. child_refs (heap t) r = child_refs (heap b) r))"
proof -
  have "attached messages \<longleftrightarrow> MapNode (id' (last messages)) \<in> forest_nodes (built messages)"
    using ne tr by (simp add: attached_def)
  then show ?thesis
    by (simp add: build_built messageTree_closed[OF d] roots_grafted child_refs_grafted)
qed

text \<open>Claim C3: the amended statement at a reply to the first message.\<close>

theorem streaming_attaches_to_last_witness:
  "distinct (map id' [mk_message 1 User None, mk_message 2 User (Some 1)]) \<and>
   [mk_message 1 User None, mk_message 2 User (Some 1)] \<noteq> [] \<and>
   truthy (reply_to_id (last [mk_message 1 User None, mk_message 2 User (Some 1)])) \<and>
   (\<exists>b t. buildMessageTree [mk_message 1 User None, mk_message 2 User (Some 1)] = Some b \<and>
      messageTree [mk_message 1 User None, mk_message 2 User (Some 1)] True ''x'' [] = Some t \<and>
      (if MapNode 2 \<in> forest_nodes b
       then roots t = roots b \<and>
            (\<forall>r. child_refs (heap t) r =
                  child_refs (heap b) r @ (if r = MapNode 2 then [StreamingNode] else []))
       else roots t = roots b @ [StreamingNode] \<and>
            (\<forall>r. child_refs (heap t) r = child_refs (heap b) r)))"
proof -
  let ?ms = "[mk_message 1 User None, mk_message 2 User (Some 1)]"
  have d: "distinct (map id' ?ms)" by (simp add: mk_message_def)
  have ne: "?ms \<noteq> []" by simp
  have tr: "truthy (reply_to_id (last ?ms))" by (simp add: mk_message_def)
  have l: "id' (last ?ms) = 2" by (simp add: mk_message_def)
  from streaming_attaches_to_last[OF d ne tr, of "''x''" "[]"] d tr
  show ?thesis unfolding l by simp
qed

text \<open>
  Claim C3 as stated fails: the last message (id 2) replies to message 1, and the streaming
  node becomes the child of node 2, the last message itself, not of the target node 1.
\<close>

theorem streaming_not_under_target:
  "reply_to_id (last [mk_message 1 User None, mk_message 2 User (Some 1)]) = Some 1 \<and>
   children_of (messageTree [mk_message 1 User None, mk_message 2 User (Some 1)] True [] []) (MapNode 1)
     = [MapNode 2] \<and>
   children_of (messageTree [mk_message 1 User None, mk_message 2 User (Some 1)] True [] []) (MapNode 2)
     = [StreamingNode]"
  by (simp add: eval_tree)






text \<open>
  Claim C10. When the last message has no stored \<open>reply_to_id\<close> (or there is no message),
  an active streaming node is appended to the roots and no children array changes,
  whatever the inference pass made of the last message.
\<close>

theorem streaming_root_without_stored_link:
  assumes "messages = [] \<or> \<not> truthy (reply_to_id (last messages))"
  shows "\<exists>b. buildMessageTree messages = Some b \<and>
           messageTree messages True streamingContent now =
             Some \<lparr>heap = (heap b)(StreamingNode \<mapsto> streamingMsg streamingContent now),
                   roots = roots b @ [StreamingNode]\<rparr> \<and>
           (\<forall>r. children_of (messageTree messages True streamingContent now) r = child_refs (heap b) r)"
  using assms by (auto simp: messageTree_def build_built Let_def children_of_def child_refs_alloc)

text \<open>
  Claim C10 at the thread \<open>[user 1, assistant 2]\<close>: the inference pass gives message 2
  the parent 1, and the streaming node is still a second root, under neither node.
\<close>

theorem streaming_root_without_stored_link_witness:
  "\<not> truthy (reply_to_id (last [mk_message 1 User None, mk_message 2 Assistant None])) \<and>
   reply_to_id (last (patchedMessages [mk_message 1 User None, mk_message 2 Assistant None])) = Some 1 \<and>
   roots_of (messageTree [mk_message 1 User None, mk_message 2 Assistant None] True ''Thinking'' []) =
     [MapNode 1, StreamingNode] \<and>
   children_of (messageTree [mk_message 1 User None, mk_message 2 Assistant None] True ''Thinking'' []) (MapNode 1) =
     [MapNode 2] \<and>
   children_of (messageTree [mk_message 1 User None, mk_message 2 Assistant None] True ''Thinking'' []) (MapNode 2) = []"
proof -
  let ?ms = "[mk_message 1 User None, mk_message 2 Assistant None]"
  have h: "?ms = [] \<or> \<not> truthy (reply_to_id (last ?ms))" by (simp add: mk_message_def)
  from streaming_root_without_stored_link[OF h, of "''Thinking''" "[]"]
  obtain b where b: "buildMessageTree ?ms = Some b"
    "messageTree ?ms True ''Thinking'' [] =
       Some \<lparr>heap = (heap b)(StreamingNode \<mapsto> streamingMsg ''Thinking'' []), roots = roots b @ [StreamingNode]\<rparr>"
    "\<forall>r. children_of (messageTree ?ms True ''Thinking'' []) r = child_refs (heap b) r"
    by blast
  have r: "roots b = [MapNode 1]" "child_refs (heap b) (MapNode 1) = [MapNode 2]" "child_refs (heap b) (MapNode 2) = []"
    using b(1) by (auto simp: eval_build child_refs_def)
  show ?thesis using b(2,3) r h
    by (simp add: roots_of_def) (simp add: patchedMessages_def patch_def mk_message_def)
qed

section \<open>Properties of the context assembler and of the stream reconciler\<close>

lemma length_slice_last: "length (slice_last n xs) = min n (length xs)"
  by (simp add: slice_last_def)

lemma collect_selected_eq:
  "collect_selected get_messages ids acc =
     acc @ concat (map (\<lambda>t. case get_messages t of None \<Rightarrow> [] | Some log \<Rightarrow> slice_last 5 log) ids)"
  by (induction ids arbitrary: acc) (auto split: option.splits)

lemma mset_insert_sorted: "mset (insert_sorted cmp x ys) = add_mset x (mset ys)"
  by (induction ys) auto

lemma mset_array_sort: "mset (array_sort comparefn xs) = mset xs"
  unfolding array_sort_def by (induction xs) (simp_all add: mset_insert_sorted)

lemma set_array_sort: "set (array_sort comparefn xs) = set xs"
  using mset_array_sort[of comparefn xs] by (rule mset_eq_setD)

lemma length_array_sort: "length (array_sort comparefn xs) = length xs"
  using mset_array_sort[of comparefn xs] by (rule mset_eq_length)

lemma insert_sorted_insort:
  "(\<And>y. y \<in> set ys \<Longrightarrow> (cmp x y \<le> 0) = (f x \<le> f y)) \<Longrightarrow>
   insert_sorted cmp x ys = insort_key f x ys"
  by (induction ys) auto

lemma SortCompare_parsed:
  "getTime (created_at a) = Some ta \<Longrightarrow> getTime (created_at b) = Some tb \<Longrightarrow>
   SortCompare (compare_created getTime) a b = ta - tb"
  by (simp add: SortCompare_def compare_created_def)

lemma array_sort_parsed:
  assumes "\<forall>m\<in>set xs. getTime (created_at m) \<noteq> None"
  shows "array_sort (compare_created getTime) xs = sort_key (\<lambda>m. the (getTime (created_at m))) xs"
  using assms
proof (induction xs)
  case Nil
  show ?case by (simp add: array_sort_def)
next
  case (Cons x xs)
  let ?f = "\<lambda>m. the (getTime (created_at m))"
  have IH: "array_sort (compare_created getTime) xs = sort_key ?f xs" using Cons by simp
  have "insert_sorted (SortCompare (compare_created getTime)) x (sort_key ?f xs) =
        insort_key ?f x (sort_key ?f xs)"
  proof (rule insert_sorted_insort)
    fix y assume "y \<in> set (sort_key ?f xs)"
    then have "y \<in> set xs" by simp
    with Cons.prems obtain ta tb where "getTime (created_at x) = Some ta" "getTime (created_at y) = Some tb"
      by auto
    then show "(SortCompare (compare_created getTime) x y \<le> 0) = (?f x \<le> ?f y)"
      by (simp add: SortCompare_parsed)
  qed
  with IH show ?case
    by (simp add: array_sort_def)
qed

lemma ascending_sorted:
  assumes "\<forall>m\<in>set xs. getTime (created_at m) \<noteq> None"
  shows "ascending_by_created getTime xs \<longleftrightarrow> sorted (map (\<lambda>m. the (getTime (created_at m))) xs)"
  using assms by (induction xs) (auto simp: ascending_by_created_def split: option.splits)

lemma unparsed_never_ascending:
  assumes "m \<in> set xs" "getTime (created_at m) = None" "2 \<le> length xs"
  shows "\<not> ascending_by_created getTime xs"
proof
  assume asc: "ascending_by_created getTime xs"
  from assms(1) obtain i where i: "i < length xs" "xs ! i = m" by (auto simp: in_set_conv_nth)
  define j where "j = (if i = 0 then 1 else (0::nat))"
  have j: "j < length xs" "j \<noteq> i" using assms(3) by (auto simp: j_def)
  let ?R = "\<lambda>a b. case getTime (created_at a) of None \<Rightarrow> False
        | Some ta \<Rightarrow> (case getTime (created_at b) of None \<Rightarrow> False | Some tb \<Rightarrow> ta \<le> tb)"
  have sw: "sorted_wrt ?R xs" using asc by (simp add: ascending_by_created_def)
  have no: "\<not> ?R m b" "\<not> ?R b m" for b
    using assms(2) by (simp_all split: option.splits)
  show False
  proof (cases "i < j")
    case True
    from sorted_wrt_nth_less[OF sw True j(1)] have "?R m (xs ! j)" unfolding i(2) .
    with no(1) show False by blast
  next
    case False
    with j have ji: "j < i" by simp
    from sorted_wrt_nth_less[OF sw ji i(1)] have "?R (xs ! j) m" unfolding i(2) .
    with no(2) show False by blast
  qed
qed

lemma length_recent: "length (recent_messages getTime pool) = min 20 (length pool)"
  by (simp add: recent_messages_def length_slice_last length_array_sort)

lemma set_recent: "set (recent_messages getTime pool) \<subseteq> set pool"
  using set_drop_subset[of "length pool - 20" "array_sort (compare_created getTime) pool"]
  by (simp add: recent_messages_def slice_last_def length_array_sort set_array_sort)

lemma recent_suffix:
  "\<exists>p. mset p = mset pool \<and>
     recent_messages getTime pool = drop (length p - 20) p \<and>
     ((\<forall>m\<in>set pool. getTime (created_at m) \<noteq> None) \<longrightarrow>
        ascending_by_created getTime p \<and> sorted (map (\<lambda>m. the (getTime (created_at m))) p))"
proof (rule exI[of _ "array_sort (compare_created getTime) pool"], intro conjI impI)
  show "mset (array_sort (compare_created getTime) pool) = mset pool" by (rule mset_array_sort)
  show "recent_messages getTime pool =
        drop (length (array_sort (compare_created getTime) pool) - 20) (array_sort (compare_created getTime) pool)"
    by (simp add: recent_messages_def slice_last_def)
next
  assume a: "\<forall>m\<in>set pool. getTime (created_at m) \<noteq> None"
  then show s: "sorted (map (\<lambda>m. the (getTime (created_at m))) (array_sort (compare_created getTime) pool))"
    by (simp add: array_sort_parsed)
  from a have "\<forall>m\<in>set (array_sort (compare_created getTime) pool). getTime (created_at m) \<noteq> None"
    by (simp add: set_array_sort)
  from ascending_sorted[OF this] s
  show "ascending_by_created getTime (array_sort (compare_created getTime) pool)" by simp
qed

lemma ascending_recent:
  assumes "\<forall>m\<in>set pool. getTime (created_at m) \<noteq> None"
  shows "ascending_by_created getTime (recent_messages getTime pool)"
proof -
  from recent_suffix[of pool getTime] assms obtain p where
    p: "recent_messages getTime pool = drop (length p - 20) p" "ascending_by_created getTime p"
    by blast
  from p(2) show ?thesis unfolding p(1) ascending_by_created_def by (rule sorted_wrt_drop)
qed

lemma prompt_of_pool:
  "select_context get_messages sel active messages threads = Some pool \<Longrightarrow>
   newChatSystemPrompt getTime get_messages True sel active messages threads systemPrompt =
     (if pool = [] then systemPrompt else Some (with_context systemPrompt (contextStr getTime pool)))"
  by (simp add: newChatSystemPrompt_def)

lemma join_Cons: "join sep (l # ls) = l @ concat (map (\<lambda>x. sep @ x) ls)"
  by (induction ls arbitrary: l) simp_all

lemma contextStr_lines:
  "contextStr getTime pool =
     (case map (\<lambda>m. toUpperCase (role m) @ '': '' @ content m) (recent_messages getTime pool) of
        [] \<Rightarrow> []
      | l # ls \<Rightarrow> l @ concat (map (\<lambda>x. CHR 0x0A # x) ls))"
proof -
  have t: "transcript_line = (\<lambda>m. toUpperCase (role m) @ '': '' @ content m)"
    by (rule ext) (simp add: transcript_line_def)
  show ?thesis
    unfolding contextStr_def t
    by (cases "map (\<lambda>m. toUpperCase (role m) @ '': '' @ content m) (recent_messages getTime pool)")
       (simp_all add: join_Cons newline_def)
qed

lemma length_concat_slices:
  "length (concat (map (\<lambda>t. slice_last 5 (f t)) ids)) = sum_list (map (\<lambda>t. min 5 (length (f t))) ids)"
  by (induction ids) (simp_all add: length_slice_last)

lemma sum_list_le_const: "(\<And>x. x \<in> set xs \<Longrightarrow> f x \<le> (c::nat)) \<Longrightarrow> sum_list (map f xs) \<le> c * length xs"
  by (induction xs) (auto simp: add_mono)

lemma sorted_recent:
  assumes "\<forall>m\<in>set pool. getTime (created_at m) \<noteq> None"
  shows "sorted (map (\<lambda>m. the (getTime (created_at m))) (recent_messages getTime pool))"
proof -
  have "\<forall>m\<in>set (recent_messages getTime pool). getTime (created_at m) \<noteq> None"
    using assms set_recent[of getTime pool] by blast
  from ascending_sorted[OF this] ascending_recent[OF assms] show ?thesis by simp
qed

lemmas eval_context = select_context_def slice_last_def recent_messages_def array_sort_def
  SortCompare_def compare_created_def getTime_examples_def mk_stamped_def contextStr_def
  transcript_line_def newChatSystemPrompt_def with_context_def newline_def

lemma rejected_send:
  "handleSendMessage_catch s = (s\<lparr>st_isStreaming := False\<rparr>, []) \<and>
   st_messages (fst (handleSendMessage_catch s)) = st_messages s \<and>
   st_streamingContent (fst (handleSendMessage_catch s)) = st_streamingContent s"
  by (simp add: handleSendMessage_catch_def)

lemma rejected_retry:
  "handleRetry_catch s = (s\<lparr>st_isStreaming := False\<rparr>, []) \<and>
   st_messages (fst (handleRetry_catch s)) = st_messages s \<and>
   st_streamingContent (fst (handleRetry_catch s)) = st_streamingContent s"
  by (simp add: handleRetry_catch_def)

lemma buffer_never_in_messages:
  "st_messages (fst (step (s\<lparr>st_streamingContent := buffer\<rparr>) e)) = st_messages (fst (step s e))"
  by (cases e)
     (simp_all add: handleSendMessage_def handleSendMessage_catch_def handleRetry_def
        handleRetry_catch_def on_stream_response_def on_stream_done_def Let_def)

section \<open>Claims about the context assembler and the stream reconciler\<close>




text \<open>
  Claim C6. With no source thread configured the pool is, in this order of priority: all
  messages of the active thread if there is an active thread with messages; else the whole
  log of the first thread of the list if there is any thread (no context when the fetch
  fails or the log is empty); else nothing, and then the prompt is unchanged. The
  transcript of any pool takes at most its last 20 messages by creation time.
\<close>

theorem fallback_chain:
  assumes "selectedContextThreadIds = []"
  shows "select_context get_messages selectedContextThreadIds activeThreadId messages threads =
           (if truthy activeThreadId \<and> messages \<noteq> [] then Some messages
            else if threads \<noteq> [] then get_messages (thr_id (hd threads))
            else Some []) \<and>
         newChatSystemPrompt getTime get_messages True selectedContextThreadIds activeThreadId messages
             threads systemPrompt =
           (if truthy activeThreadId \<and> messages \<noteq> [] then Some (with_context systemPrompt (contextStr getTime messages))
            else if threads \<noteq> [] then
              (case get_messages (thr_id (hd threads)) of
                 None \<Rightarrow> systemPrompt
               | Some log \<Rightarrow> if log = [] then systemPrompt
                            else Some (with_context systemPrompt (contextStr getTime log)))
            else systemPrompt) \<and>
         (\<forall>pool. contextStr getTime pool = join newline (map transcript_line (recent_messages getTime pool)) \<and>
                 length (recent_messages getTime pool) = min 20 (length pool) \<and>
                 set (recent_messages getTime pool) \<subseteq> set pool)"
proof -
  have 1: "select_context get_messages selectedContextThreadIds activeThreadId messages threads =
           (if truthy activeThreadId \<and> messages \<noteq> [] then Some messages
            else if threads \<noteq> [] then get_messages (thr_id (hd threads))
            else Some [])"
    using assms by (simp add: select_context_def hd_conv_nth)
  show ?thesis
    unfolding 1
    using set_recent[of getTime]
    by (auto simp: newChatSystemPrompt_def 1 contextStr_def length_recent split: option.splits)
qed

text \<open>
  Claim C6 where the active thread has no messages and one thread exists: its log is used.
\<close>

theorem fallback_chain_witness:
  "([] :: int list) = [] \<and>
   select_context
      (\<lambda>t. if t = 3 then Some [mk_stamped 1 User ''hi'' ''2024-01-03T00:00:00.000Z'',
                                mk_stamped 2 Assistant ''ho'' ''2024-01-01T00:00:00.000Z'']
            else None)
      [] (Some 5) []
      [\<lparr>thr_id = 3, title = [], thr_created_at = [], system_prompt = None, is_archived = False\<rparr>] =
     Some [mk_stamped 1 User ''hi'' ''2024-01-03T00:00:00.000Z'',
           mk_stamped 2 Assistant ''ho'' ''2024-01-01T00:00:00.000Z''] \<and>
   newChatSystemPrompt getTime_examples
      (\<lambda>t. if t = 3 then Some [mk_stamped 1 User ''hi'' ''2024-01-03T00:00:00.000Z'',
                                mk_stamped 2 Assistant ''ho'' ''2024-01-01T00:00:00.000Z'']
            else None)
      True [] (Some 5) []
      [\<lparr>thr_id = 3, title = [], thr_created_at = [], system_prompt = None, is_archived = False\<rparr>] (Some ''P'') =
     Some (with_context (Some ''P'') (''ASSISTANT: ho'' @ newline @ ''USER: hi''))"
proof -
  let ?g = "\<lambda>t::int. if t = 3 then Some [mk_stamped 1 User ''hi'' ''2024-01-03T00:00:00.000Z'',
                                mk_stamped 2 Assistant ''ho'' ''2024-01-01T00:00:00.000Z'']
            else None"
  let ?th = "[\<lparr>thr_id = 3, title = [], thr_created_at = [], system_prompt = None, is_archived = False\<rparr>]"
  have str: "contextStr getTime_examples [mk_stamped 1 User ''hi'' ''2024-01-03T00:00:00.000Z'',
                                mk_stamped 2 Assistant ''ho'' ''2024-01-01T00:00:00.000Z''] =
             ''ASSISTANT: ho'' @ newline @ ''USER: hi''"
    by (simp add: contextStr_def recent_messages_def slice_last_def array_sort_def SortCompare_def
        compare_created_def getTime_examples_def transcript_line_def mk_stamped_def)
  from fallback_chain[of "[]" ?g "Some 5" "[]" ?th getTime_examples "Some ''P''"]
  show ?thesis unfolding str by (simp add: str)
qed

text \<open>
  Claim C7, as amended. With source threads configured, the choice of the pool raises no
  exception whatever fetches fail: a thread whose fetch fails contributes nothing, the
  others their last 5 messages, and the prompt is built from the last 20 messages of a
  rearrangement of that pool, which are in ascending order of creation time when every
  time stamp of the pool parses as a date.
\<close>

theorem partial_fetch_failure:
  assumes sel: "selectedContextThreadIds \<noteq> []"
  shows "let pool = concat (map (\<lambda>t. case get_messages t of None \<Rightarrow> [] | Some log \<Rightarrow> slice_last 5 log)
                             selectedContextThreadIds) in
     select_context get_messages selectedContextThreadIds activeThreadId messages threads = Some pool \<and>
     newChatSystemPrompt getTime get_messages True selectedContextThreadIds activeThreadId messages
         threads systemPrompt =
       (if pool = [] then systemPrompt else Some (with_context systemPrompt (contextStr getTime pool))) \<and>
     contextStr getTime pool =
       (case map (\<lambda>m. toUpperCase (role m) @ '': '' @ content m) (recent_messages getTime pool) of
          [] \<Rightarrow> []
        | l # ls \<Rightarrow> l @ concat (map (\<lambda>x. CHR 0x0A # x) ls)) \<and>
     ((\<forall>m\<in>set pool. getTime (created_at m) \<noteq> None) \<longrightarrow>
        ascending_by_created getTime (recent_messages getTime pool) \<and>
        sorted (map (\<lambda>m. the (getTime (created_at m))) (recent_messages getTime pool))) \<and>
     (\<exists>p. mset p = mset pool \<and> recent_messages getTime pool = drop (length p - 20) p) \<and>
     set (recent_messages getTime pool) \<subseteq> set pool \<and>
     length (recent_messages getTime pool) = min 20 (length pool)"
proof -
  let ?pool = "concat (map (\<lambda>t. case get_messages t of None \<Rightarrow> [] | Some log \<Rightarrow> slice_last 5 log)
                             selectedContextThreadIds)"
  have sc: "select_context get_messages selectedContextThreadIds activeThreadId messages threads = Some ?pool"
    using sel by (simp add: select_context_def collect_selected_eq)
  have so: "(\<forall>m\<in>set ?pool. getTime (created_at m) \<noteq> None) \<longrightarrow>
        ascending_by_created getTime (recent_messages getTime ?pool) \<and>
        sorted (map (\<lambda>m. the (getTime (created_at m))) (recent_messages getTime ?pool))"
    using ascending_recent[of ?pool getTime] sorted_recent[of ?pool getTime] by blast
  have pe: "\<exists>p. mset p = mset ?pool \<and> recent_messages getTime ?pool = drop (length p - 20) p"
    using recent_suffix[of ?pool getTime] by blast
  show ?thesis
    unfolding Let_def
    using sc prompt_of_pool[OF sc] contextStr_lines[of getTime ?pool] so pe
      set_recent[of getTime ?pool] length_recent[of getTime ?pool]
    by blast
qed

text \<open>Claim C7 at two configured threads, the fetch of the first of which fails.\<close>

theorem partial_fetch_failure_witness:
  "[1, 2] \<noteq> ([] :: int list) \<and>
   (\<lambda>t. if t = (2::int) then Some [mk_stamped 1 User ''hi'' ''2024-01-03T00:00:00.000Z'',
                                    mk_stamped 2 Assistant ''ho'' ''2024-01-01T00:00:00.000Z'']
         else None) 1 = None \<and>
   select_context
      (\<lambda>t. if t = 2 then Some [mk_stamped 1 User ''hi'' ''2024-01-03T00:00:00.000Z'',
                                mk_stamped 2 Assistant ''ho'' ''2024-01-01T00:00:00.000Z'']
            else None)
      [1, 2] None [] [] =
     Some [mk_stamped 1 User ''hi'' ''2024-01-03T00:00:00.000Z'',
           mk_stamped 2 Assistant ''ho'' ''2024-01-01T00:00:00.000Z''] \<and>
   recent_messages getTime_examples
      [mk_stamped 1 User ''hi'' ''2024-01-03T00:00:00.000Z'',
       mk_stamped 2 Assistant ''ho'' ''2024-01-01T00:00:00.000Z''] =
     [mk_stamped 2 Assistant ''ho'' ''2024-01-01T00:00:00.000Z'',
      mk_stamped 1 User ''hi'' ''2024-01-03T00:00:00.000Z''] \<and>
   newChatSystemPrompt getTime_examples
      (\<lambda>t. if t = 2 then Some [mk_stamped 1 User ''hi'' ''2024-01-03T00:00:00.000Z'',
                                mk_stamped 2 Assistant ''ho'' ''2024-01-01T00:00:00.000Z'']
            else None)
      True [1, 2] None [] [] None =
     Some ([CHR 0x0A, CHR 0x0A] @ ''[CONTEXT FROM PREVIOUS SESSION]'' @ [CHR 0x0A] @
           ''ASSISTANT: ho'' @ [CHR 0x0A] @ ''USER: hi'' @ [CHR 0x0A] @ ''[END CONTEXT]'' @ [CHR 0x0A])"
proof -
  let ?g = "\<lambda>t::int. if t = 2 then Some [mk_stamped 1 User ''hi'' ''2024-01-03T00:00:00.000Z'',
                                mk_stamped 2 Assistant ''ho'' ''2024-01-01T00:00:00.000Z'']
            else None"
  have sel: "[1, 2] \<noteq> ([] :: int list)" by simp
  have pool: "concat (map (\<lambda>t. case ?g t of None \<Rightarrow> [] | Some log \<Rightarrow> slice_last 5 log) [1, 2]) =
      [mk_stamped 1 User ''hi'' ''2024-01-03T00:00:00.000Z'',
       mk_stamped 2 Assistant ''ho'' ''2024-01-01T00:00:00.000Z'']"
    by (simp add: slice_last_def)
  have rec: "recent_messages getTime_examples
      [mk_stamped 1 User ''hi'' ''2024-01-03T00:00:00.000Z'',
       mk_stamped 2 Assistant ''ho'' ''2024-01-01T00:00:00.000Z''] =
     [mk_stamped 2 Assistant ''ho'' ''2024-01-01T00:00:00.000Z'',
      mk_stamped 1 User ''hi'' ''2024-01-03T00:00:00.000Z'']"
    by (simp add: eval_context)
  have str: "contextStr getTime_examples
      [mk_stamped 1 User ''hi'' ''2024-01-03T00:00:00.000Z'',
       mk_stamped 2 Assistant ''ho'' ''2024-01-01T00:00:00.000Z''] =
     ''ASSISTANT: ho'' @ [CHR 0x0A] @ ''USER: hi''"
    unfolding contextStr_def rec by (simp add: transcript_line_def mk_stamped_def newline_def)
  from partial_fetch_failure[OF sel, of ?g None "[]" "[]" getTime_examples None]
  have "select_context ?g [1, 2] None [] [] =
      Some [mk_stamped 1 User ''hi'' ''2024-01-03T00:00:00.000Z'',
            mk_stamped 2 Assistant ''ho'' ''2024-01-01T00:00:00.000Z'']"
    "newChatSystemPrompt getTime_examples ?g True [1, 2] None [] [] None =
     Some ([CHR 0x0A, CHR 0x0A] @ ''[CONTEXT FROM PREVIOUS SESSION]'' @ [CHR 0x0A] @
           ''ASSISTANT: ho'' @ [CHR 0x0A] @ ''USER: hi'' @ [CHR 0x0A] @ ''[END CONTEXT]'' @ [CHR 0x0A])"
    unfolding Let_def pool str by (simp_all add: with_context_def newline_def)
  with rec show ?thesis by simp
qed

text \<open>
  Claim C7 as stated fails where it says that the context is sorted: the fetch of the
  first thread fails, the second thread has a time stamp that does not parse between a
  later and an earlier message, and the transcript keeps the later message first.
\<close>

theorem failed_fetch_unparsed_stamp:
  "select_context
      (\<lambda>t. if t = 2 then Some [mk_stamped 7 User ''x'' ''2024-01-02T00:00:00.000Z'',
                                mk_stamped 8 User ''y'' ''not a date'',
                                mk_stamped 9 User ''z'' ''2024-01-01T00:00:00.000Z'']
            else None)
      [1, 2] None [] [] =
     Some [mk_stamped 7 User ''x'' ''2024-01-02T00:00:00.000Z'',
           mk_stamped 8 User ''y'' ''not a date'',
           mk_stamped 9 User ''z'' ''2024-01-01T00:00:00.000Z''] \<and>
   recent_messages getTime_examples
      [mk_stamped 7 User ''x'' ''2024-01-02T00:00:00.000Z'',
       mk_stamped 8 User ''y'' ''not a date'',
       mk_stamped 9 User ''z'' ''2024-01-01T00:00:00.000Z''] =
     [mk_stamped 7 User ''x'' ''2024-01-02T00:00:00.000Z'',
      mk_stamped 8 User ''y'' ''not a date'',
      mk_stamped 9 User ''z'' ''2024-01-01T00:00:00.000Z''] \<and>
   \<not> ascending_by_created getTime_examples
       (recent_messages getTime_examples
          [mk_stamped 7 User ''x'' ''2024-01-02T00:00:00.000Z'',
           mk_stamped 8 User ''y'' ''not a date'',
           mk_stamped 9 User ''z'' ''2024-01-01T00:00:00.000Z'']) \<and>
   newChatSystemPrompt getTime_examples
      (\<lambda>t. if t = 2 then Some [mk_stamped 7 User ''x'' ''2024-01-02T00:00:00.000Z'',
                                mk_stamped 8 User ''y'' ''not a date'',
                                mk_stamped 9 User ''z'' ''2024-01-01T00:00:00.000Z'']
            else None)
      True [1, 2] None [] [] None =
     Some ([CHR 0x0A, CHR 0x0A] @ ''[CONTEXT FROM PREVIOUS SESSION]'' @ [CHR 0x0A] @
           ''USER: x'' @ [CHR 0x0A] @ ''USER: y'' @ [CHR 0x0A] @ ''USER: z'' @
           [CHR 0x0A] @ ''[END CONTEXT]'' @ [CHR 0x0A])"
  by (simp add: eval_context ascending_by_created_def)

text \<open>
  Claim C4. A message is sent, the backend streams the fragment \<open>par\<close>, then the call
  \<open>send_message\<close> rejects: the handler sets \<open>isStreaming\<close> to false, issues no further
  command and leaves the messages as they are, but the streamed fragment stays in
  \<open>streamingContent\<close>; only the \<open>stream-done\<close> listener and the start of the next
  generation reset it.
\<close>

theorem failed_send_keeps_buffer:
  "run \<lparr>st_messages = [], st_streamingContent = [], st_isStreaming = False,
        st_activeThreadId = Some 1, st_isTauriEnv = True\<rparr>
       [SendMessage ''hi'' None None None 100 [], StreamResponse ''par'', SendRejected] =
     (\<lparr>st_messages = [\<lparr>id' = 100, thread_id = 1, role = User, content = ''hi'', images = None,
                        created_at = [], reply_to_id = None, model = None\<rparr>],
       st_streamingContent = ''par'', st_isStreaming = False,
       st_activeThreadId = Some 1, st_isTauriEnv = True\<rparr>,
      [Send_message 1 ''hi'' None None None])"
  by (simp add: handleSendMessage_def handleSendMessage_catch_def on_stream_response_def)

end
